theory Spec2Isabelle
  imports Main "HOL-Library.Word"
begin

unbundle bit_operations_syntax

type_synonym u8 = "8 word"
type_synonym u16 = "16 word"
type_synonym u32 = "32 word"
type_synonym u64 = "64 word"
type_synonym size_t = "64 word"

section \<open>Probe lifecycle manager (netlog probes)\<close>

text \<open>
  The probe file keeps one global bitmask \<open>loaded_probes\<close> (a \<open>u32\<close>) and eight static
  probe objects.  The kernel's probe registry is external: here it is the set of hooks
  that are currently registered, and the return value of \<open>register_jprobe\<close> /
  \<open>register_kretprobe\<close> for each hook is an input of the model (\<open>reg\<close>).
\<close>


datatype hook =
    stream_connect_jprobe
  | stream_connect_kretprobe
  | dgram_connect_jprobe
  | dgram_connect_kretprobe
  | accept_kretprobe
  | close_jprobe
  | bind_kretprobe
  | bind_jprobe

text \<open>
  The bit numbers \<open>PROBE_*\<close> come from \<open>probes.h\<close> and the error codes
  \<open>*_PROBE_FAILED\<close> from \<open>internal.h\<close>; neither header is part of the sources at
  hand, so both are parameters of the model.
\<close>

record probe_conf =
  PROBE_TCP_CONNECT :: nat
  PROBE_TCP_ACCEPT :: nat
  PROBE_TCP_CLOSE :: nat
  PROBE_UDP_CONNECT :: nat
  PROBE_UDP_BIND :: nat
  PROBE_UDP_CLOSE :: nat
  CONNECT_PROBE_FAILED :: int
  ACCEPT_PROBE_FAILED :: int
  CLOSE_PROBE_FAILED :: int
  BIND_PROBE_FAILED :: int

record probe_state =
  loaded_probes :: u32
  planted :: "hook set"

text \<open>\<open>1 << n\<close> as used in the masks.\<close>

definition shl1 :: "nat \<Rightarrow> u32" where
  "shl1 n = push_bit n 1"

definition unplant_jprobe :: "hook \<Rightarrow> probe_state \<Rightarrow> probe_state" where
  "unplant_jprobe probe s = s\<lparr>planted := planted s - {probe}\<rparr>"

definition unplant_kretprobe :: "hook \<Rightarrow> probe_state \<Rightarrow> probe_state" where
  "unplant_kretprobe probe s = s\<lparr>planted := planted s - {probe}\<rparr>"

definition unplant_tcp_connect :: "probe_state \<Rightarrow> probe_state" where
  "unplant_tcp_connect s =
     unplant_kretprobe stream_connect_kretprobe (unplant_jprobe stream_connect_jprobe s)"

definition unplant_udp_connect :: "probe_state \<Rightarrow> probe_state" where
  "unplant_udp_connect s =
     unplant_kretprobe dgram_connect_kretprobe (unplant_jprobe dgram_connect_jprobe s)"

definition unplant_tcp_accept :: "probe_state \<Rightarrow> probe_state" where
  "unplant_tcp_accept s = unplant_kretprobe accept_kretprobe s"

definition unplant_close :: "probe_state \<Rightarrow> probe_state" where
  "unplant_close s = unplant_jprobe close_jprobe s"

definition unplant_udp_bind :: "probe_state \<Rightarrow> probe_state" where
  "unplant_udp_bind s = unplant_kretprobe bind_kretprobe (unplant_jprobe bind_jprobe s)"

definition unplant_probe_locked :: "probe_conf \<Rightarrow> u32 \<Rightarrow> probe_state \<Rightarrow> probe_state" where
  "unplant_probe_locked c probe s0 =
    (let removed_probes = loaded_probes s0 AND probe;
         s1 = s0\<lparr>loaded_probes := loaded_probes s0 XOR removed_probes\<rparr>;
         s2 = (if removed_probes AND shl1 (PROBE_TCP_CONNECT c) \<noteq> 0
               then unplant_tcp_connect s1 else s1);
         s3 = (if removed_probes AND shl1 (PROBE_TCP_ACCEPT c) \<noteq> 0
               then unplant_tcp_accept s2 else s2);
         s4 = (if removed_probes AND (shl1 (PROBE_TCP_CLOSE c) OR shl1 (PROBE_UDP_CLOSE c)) \<noteq> 0
               then (if \<not> (loaded_probes s3 AND
                             (shl1 (PROBE_TCP_CLOSE c) OR shl1 (PROBE_UDP_CLOSE c)) \<noteq> 0)
                     then unplant_close s3 else s3)
               else s3);
         s5 = (if removed_probes AND shl1 (PROBE_UDP_CONNECT c) \<noteq> 0
               then unplant_udp_connect s4 else s4);
         s6 = (if removed_probes AND shl1 (PROBE_UDP_BIND c) \<noteq> 0
               then unplant_udp_bind s5 else s5)
     in s6)"

definition unplant_probe :: "probe_conf \<Rightarrow> u32 \<Rightarrow> probe_state \<Rightarrow> probe_state" where
  "unplant_probe c probe s = unplant_probe_locked c probe s"

text \<open>
  \<open>plant_jprobe\<close> and \<open>plant_kretprobe\<close> return what the kernel's registration
  returned; the hook is registered unless that value is negative.
\<close>

definition plant_jprobe :: "(hook \<Rightarrow> int) \<Rightarrow> hook \<Rightarrow> probe_state \<Rightarrow> int \<times> probe_state" where
  "plant_jprobe reg probe s =
    (let err = reg probe
     in (err, if err < 0 then s else s\<lparr>planted := insert probe (planted s)\<rparr>))"

definition plant_kretprobe :: "(hook \<Rightarrow> int) \<Rightarrow> hook \<Rightarrow> probe_state \<Rightarrow> int \<times> probe_state" where
  "plant_kretprobe reg probe s =
    (let err = reg probe
     in (err, if err < 0 then s else s\<lparr>planted := insert probe (planted s)\<rparr>))"

definition plant_tcp_connect ::
  "probe_conf \<Rightarrow> (hook \<Rightarrow> int) \<Rightarrow> probe_state \<Rightarrow> int \<times> probe_state" where
  "plant_tcp_connect c reg s =
    (case plant_jprobe reg stream_connect_jprobe s of (err, s1) \<Rightarrow>
       if err < 0 then (- CONNECT_PROBE_FAILED c, s1)
       else (case plant_kretprobe reg stream_connect_kretprobe s1 of (err2, s2) \<Rightarrow>
         if err2 < 0
         then (- CONNECT_PROBE_FAILED c, unplant_jprobe stream_connect_jprobe s2)
         else (0, s2)))"

definition plant_udp_connect ::
  "probe_conf \<Rightarrow> (hook \<Rightarrow> int) \<Rightarrow> probe_state \<Rightarrow> int \<times> probe_state" where
  "plant_udp_connect c reg s =
    (case plant_jprobe reg dgram_connect_jprobe s of (err, s1) \<Rightarrow>
       if err < 0 then (- CONNECT_PROBE_FAILED c, s1)
       else (case plant_kretprobe reg dgram_connect_kretprobe s1 of (err2, s2) \<Rightarrow>
         if err2 < 0
         then (- CONNECT_PROBE_FAILED c, unplant_jprobe dgram_connect_jprobe s2)
         else (0, s2)))"

definition plant_tcp_accept ::
  "probe_conf \<Rightarrow> (hook \<Rightarrow> int) \<Rightarrow> probe_state \<Rightarrow> int \<times> probe_state" where
  "plant_tcp_accept c reg s =
    (case plant_kretprobe reg accept_kretprobe s of (err, s1) \<Rightarrow>
       if err < 0 then (- ACCEPT_PROBE_FAILED c, s1) else (0, s1))"

definition plant_close ::
  "probe_conf \<Rightarrow> (hook \<Rightarrow> int) \<Rightarrow> probe_state \<Rightarrow> int \<times> probe_state" where
  "plant_close c reg s =
    (case plant_jprobe reg close_jprobe s of (err, s1) \<Rightarrow>
       if err < 0 then (- CLOSE_PROBE_FAILED c, s1) else (0, s1))"

definition plant_udp_bind ::
  "probe_conf \<Rightarrow> (hook \<Rightarrow> int) \<Rightarrow> probe_state \<Rightarrow> int \<times> probe_state" where
  "plant_udp_bind c reg s =
    (case plant_jprobe reg bind_jprobe s of (err, s1) \<Rightarrow>
       if err < 0 then (- BIND_PROBE_FAILED c, s1)
       else (case plant_kretprobe reg bind_kretprobe s1 of (err2, s2) \<Rightarrow>
         if err2 < 0
         then (- BIND_PROBE_FAILED c, unplant_jprobe bind_jprobe s2)
         else (0, s2)))"

text \<open>
  One \<open>if (new_probes & (1 << P)) { err = plant(); if (err) goto unlock;
  loaded_probes |= 1 << P; }\<close> block of \<open>plant_probe\<close>.  \<open>Inl\<close> is the jump to
  \<open>unlock\<close> with the error, \<open>Inr\<close> falls through to the next block.
\<close>

definition plant_block ::
  "u32 \<Rightarrow> nat \<Rightarrow> (probe_state \<Rightarrow> int \<times> probe_state) \<Rightarrow> probe_state
     \<Rightarrow> (int \<times> probe_state) + probe_state" where
  "plant_block new_probes p plant s =
    (if new_probes AND shl1 p \<noteq> 0
     then (case plant s of (err, s1) \<Rightarrow>
             if err \<noteq> 0 then Inl (err, s1)
             else Inr (s1\<lparr>loaded_probes := loaded_probes s1 OR shl1 p\<rparr>))
     else Inr s)"

text \<open>
  The two close blocks: the shared hook is planted only if the sibling category is not
  loaded yet.
\<close>

definition plant_close_block ::
  "probe_conf \<Rightarrow> (hook \<Rightarrow> int) \<Rightarrow> u32 \<Rightarrow> nat \<Rightarrow> nat \<Rightarrow> probe_state
     \<Rightarrow> (int \<times> probe_state) + probe_state" where
  "plant_close_block c reg new_probes p sibling s =
    (if new_probes AND shl1 p \<noteq> 0
     then (if \<not> (loaded_probes s AND shl1 sibling \<noteq> 0)
           then (case plant_close c reg s of (err, s1) \<Rightarrow>
                   if err \<noteq> 0 then Inl (err, s1)
                   else Inr (s1\<lparr>loaded_probes := loaded_probes s1 OR shl1 p\<rparr>))
           else Inr (s\<lparr>loaded_probes := loaded_probes s OR shl1 p\<rparr>))
     else Inr s)"

definition then_block ::
  "(int \<times> probe_state) + probe_state
     \<Rightarrow> (probe_state \<Rightarrow> (int \<times> probe_state) + probe_state)
     \<Rightarrow> (int \<times> probe_state) + probe_state" where
  "then_block r f = (case r of Inl e \<Rightarrow> Inl e | Inr s \<Rightarrow> f s)"

definition plant_probe ::
  "probe_conf \<Rightarrow> (hook \<Rightarrow> int) \<Rightarrow> u32 \<Rightarrow> probe_state \<Rightarrow> int \<times> probe_state" where
  "plant_probe c reg probe s =
    (let new_probes = (probe XOR loaded_probes s) AND probe
     in case
          then_block (then_block (then_block (then_block (then_block
            (plant_block new_probes (PROBE_TCP_CONNECT c) (plant_tcp_connect c reg) s)
            (plant_block new_probes (PROBE_TCP_ACCEPT c) (plant_tcp_accept c reg)))
            (plant_close_block c reg new_probes (PROBE_TCP_CLOSE c) (PROBE_UDP_CLOSE c)))
            (plant_block new_probes (PROBE_UDP_CONNECT c) (plant_udp_connect c reg)))
            (plant_block new_probes (PROBE_UDP_BIND c) (plant_udp_bind c reg)))
            (plant_close_block c reg new_probes (PROBE_UDP_CLOSE c) (PROBE_TCP_CLOSE c))
        of Inl (err, s') \<Rightarrow> (err, s')
         | Inr s' \<Rightarrow> (0, s'))"

definition probe_status :: "u32 \<Rightarrow> probe_state \<Rightarrow> int" where
  "probe_status probe s = (if probe AND loaded_probes s \<noteq> 0 then 1 else 0)"

text \<open>
  Well-formed constants: six distinct bit numbers inside a \<open>u32\<close> and non-zero error
  codes.
\<close>

definition conf_ok :: "probe_conf \<Rightarrow> bool" where
  "conf_ok c \<longleftrightarrow>
     distinct [PROBE_TCP_CONNECT c, PROBE_TCP_ACCEPT c, PROBE_TCP_CLOSE c,
               PROBE_UDP_CONNECT c, PROBE_UDP_BIND c, PROBE_UDP_CLOSE c]
     \<and> list_all (\<lambda>p. p < 32)
         [PROBE_TCP_CONNECT c, PROBE_TCP_ACCEPT c, PROBE_TCP_CLOSE c,
          PROBE_UDP_CONNECT c, PROBE_UDP_BIND c, PROBE_UDP_CLOSE c]
     \<and> list_all (\<lambda>e. e \<noteq> 0)
         [CONNECT_PROBE_FAILED c, ACCEPT_PROBE_FAILED c, CLOSE_PROBE_FAILED c,
          BIND_PROBE_FAILED c]"

definition probes_0_5 :: probe_conf where
  "probes_0_5 = \<lparr>PROBE_TCP_CONNECT = 0, PROBE_TCP_ACCEPT = 1, PROBE_TCP_CLOSE = 2,
     PROBE_UDP_CONNECT = 3, PROBE_UDP_BIND = 4, PROBE_UDP_CLOSE = 5,
     CONNECT_PROBE_FAILED = 1, ACCEPT_PROBE_FAILED = 2, CLOSE_PROBE_FAILED = 3,
     BIND_PROBE_FAILED = 4\<rparr>"

definition no_probes :: probe_state where
  "no_probes = \<lparr>loaded_probes = 0, planted = {}\<rparr>"

text \<open>
  The six categories in the order in which \<open>plant_probe\<close> handles them.
\<close>

definition categories :: "probe_conf \<Rightarrow> nat list" where
  "categories c = [PROBE_TCP_CONNECT c, PROBE_TCP_ACCEPT c, PROBE_TCP_CLOSE c,
                   PROBE_UDP_CONNECT c, PROBE_UDP_BIND c, PROBE_UDP_CLOSE c]"

text \<open>
  The categories that need a hook: the close hook serves both close categories.
\<close>

primrec needed_by :: "probe_conf \<Rightarrow> hook \<Rightarrow> nat list" where
  "needed_by c stream_connect_jprobe = [PROBE_TCP_CONNECT c]"
| "needed_by c stream_connect_kretprobe = [PROBE_TCP_CONNECT c]"
| "needed_by c dgram_connect_jprobe = [PROBE_UDP_CONNECT c]"
| "needed_by c dgram_connect_kretprobe = [PROBE_UDP_CONNECT c]"
| "needed_by c accept_kretprobe = [PROBE_TCP_ACCEPT c]"
| "needed_by c close_jprobe = [PROBE_TCP_CLOSE c, PROBE_UDP_CLOSE c]"
| "needed_by c bind_kretprobe = [PROBE_UDP_BIND c]"
| "needed_by c bind_jprobe = [PROBE_UDP_BIND c]"

text \<open>
  The active set and the registry agree: a hook is registered exactly when the bit
  of some category that needs it is set.
\<close>

definition consistent :: "probe_conf \<Rightarrow> probe_state \<Rightarrow> bool" where
  "consistent c s \<longleftrightarrow>
     (\<forall>h. (h \<in> planted s) = (\<exists>q \<in> set (needed_by c h). bit (loaded_probes s) q))"

text \<open>
  The code each block of \<open>plant_probe\<close> returns (negated) when its planting fails.
\<close>

definition failure_codes :: "probe_conf \<Rightarrow> int list" where
  "failure_codes c = [CONNECT_PROBE_FAILED c, ACCEPT_PROBE_FAILED c, CLOSE_PROBE_FAILED c,
                      CONNECT_PROBE_FAILED c, BIND_PROBE_FAILED c, CLOSE_PROBE_FAILED c]"

text \<open>
  Whether the registrations block \<open>k\<close> performs fail: the close blocks register
  the shared hook only if the sibling category is not active at that point.
\<close>

definition registration_fails ::
  "probe_conf \<Rightarrow> (hook \<Rightarrow> int) \<Rightarrow> u32 \<Rightarrow> probe_state \<Rightarrow> nat \<Rightarrow> bool" where
  "registration_fails c reg probe s k =
    (if k = 0 then reg stream_connect_jprobe < 0 \<or> reg stream_connect_kretprobe < 0
     else if k = 1 then reg accept_kretprobe < 0
     else if k = 2 then \<not> bit (loaded_probes s) (PROBE_UDP_CLOSE c) \<and> reg close_jprobe < 0
     else if k = 3 then reg dgram_connect_jprobe < 0 \<or> reg dgram_connect_kretprobe < 0
     else if k = 4 then reg bind_jprobe < 0 \<or> reg bind_kretprobe < 0
     else \<not> bit (loaded_probes s) (PROBE_TCP_CLOSE c) \<and> \<not> bit probe (PROBE_TCP_CLOSE c)
          \<and> reg close_jprobe < 0)"

text \<open>
  Block \<open>k\<close> fails: its category is requested, not yet active, and its registration
  fails.
\<close>

definition planting_fails ::
  "probe_conf \<Rightarrow> (hook \<Rightarrow> int) \<Rightarrow> u32 \<Rightarrow> probe_state \<Rightarrow> nat \<Rightarrow> bool" where
  "planting_fails c reg probe s k \<longleftrightarrow>
     bit probe (categories c ! k) \<and> \<not> bit (loaded_probes s) (categories c ! k)
     \<and> registration_fails c reg probe s k"

text \<open>
  State \<open>t\<close> is state \<open>s\<close> with the requested categories among the first \<open>k\<close>
  added.
\<close>

definition planted_up_to :: "nat \<Rightarrow> probe_conf \<Rightarrow> u32 \<Rightarrow> probe_state \<Rightarrow> probe_state \<Rightarrow> bool" where
  "planted_up_to k c probe s t \<longleftrightarrow>
     consistent c t \<and> planted s \<subseteq> planted t
     \<and> (\<forall>q. bit (loaded_probes t) q =
              (bit (loaded_probes s) q \<or> (bit probe q \<and> q \<in> set (take k (categories c)))))"

text \<open>
  Marking a category active and registering its hooks.
\<close>

definition add_category :: "probe_conf \<Rightarrow> nat \<Rightarrow> probe_state \<Rightarrow> probe_state" where
  "add_category c p t = t\<lparr>planted := {h. p \<in> set (needed_by c h)} \<union> planted t,
                          loaded_probes := loaded_probes t OR shl1 p\<rparr>"

text \<open>
  What \<open>plant_probe\<close> has reached after its first \<open>k\<close> blocks.
\<close>

definition stage_outcome ::
  "probe_conf \<Rightarrow> (hook \<Rightarrow> int) \<Rightarrow> u32 \<Rightarrow> probe_state \<Rightarrow> nat
     \<Rightarrow> (int \<times> probe_state) + probe_state \<Rightarrow> bool" where
  "stage_outcome c reg probe s k r =
    (case r of
       Inr t \<Rightarrow> planted_up_to k c probe s t \<and> (\<forall>j<k. \<not> planting_fails c reg probe s j)
     | Inl (e, t) \<Rightarrow> (\<exists>m<k. planted_up_to m c probe s t
                        \<and> (\<forall>j<m. \<not> planting_fails c reg probe s j)
                        \<and> planting_fails c reg probe s m
                        \<and> e = - failure_codes c ! m \<and> e \<noteq> 0))"

text \<open>
  A registry in which only the accept hook cannot be registered, and one in which every
  registration succeeds.
\<close>

definition accept_fails :: "hook \<Rightarrow> int" where
  "accept_fails h = (if h = accept_kretprobe then - 1 else 0)"

definition all_succeed :: "hook \<Rightarrow> int" where
  "all_succeed h = 0"

section \<open>Secure log: ring buffer and reader sessions\<close>

record layout =
  LOG_BUF_LEN :: u32
  LOG_ALIGN :: size_t
  sizeof_sec_log :: size_t
  sizeof_netlog_log :: size_t
  sizeof_execlog_log :: size_t
  USER_BUFFER_SIZE :: size_t
  LOG_PRIORITY :: nat

datatype netlog_protocol = PROTO_TCP | PROTO_UDP

datatype netlog_action = ACTION_BIND | ACTION_CONNECT | ACTION_ACCEPT | ACTION_CLOSE

record 'd sec_log =
  len :: size_t
  process :: 'd

record 'd netlog_log =
  header :: "'d sec_log"
  path_len :: size_t
  protocol :: netlog_protocol
  action :: netlog_action
  family :: u16
  src_port :: int
  dst_port :: int
  src :: "u8 list"
  dst :: "u8 list"
  path :: string

record 'd execlog_log =
  exec_header :: "'d sec_log"
  exec_path_len :: size_t
  argv_len :: size_t
  exec_path :: string
  argv :: string

datatype 'd log_entry = Netlog "'d netlog_log" | Execlog "'d execlog_log"

datatype 'd cell = Zeroed | Entry "'d log_entry" | Clobbered

fun entry_header :: "'d log_entry \<Rightarrow> 'd sec_log" where
  "entry_header (Netlog r) = header r"
| "entry_header (Execlog r) = exec_header r"

fun extent :: "'d cell \<Rightarrow> nat" where
  "extent Zeroed = 8"
| "extent (Entry e) = unat (len (entry_header e))"
| "extent Clobbered = 0"

definition overwrite :: "(nat \<Rightarrow> 'd cell) \<Rightarrow> nat \<Rightarrow> nat \<Rightarrow> 'd cell \<Rightarrow> nat \<Rightarrow> 'd cell" where
  "overwrite mem at n c =
     (\<lambda>o'. if o' = at then c
           else if o' < at + n \<and> at < o' + extent (mem o') then Clobbered
           else mem o')"

definition read_len :: "(nat \<Rightarrow> size_t) \<Rightarrow> (nat \<Rightarrow> 'd cell) \<Rightarrow> nat \<Rightarrow> size_t" where
  "read_len junk mem at =
     (case mem at of Zeroed \<Rightarrow> 0 | Entry e \<Rightarrow> len (entry_header e) | Clobbered \<Rightarrow> junk at)"

record 'd log_state =
  log_buf :: "nat \<Rightarrow> 'd cell"
  log_first_seq :: u64
  log_first_idx :: u32
  log_next_seq :: u64
  log_next_idx :: u32

definition log_init :: "'d log_state" where
  "log_init = \<lparr>log_buf = (\<lambda>_. Zeroed), log_first_seq = 0, log_first_idx = 0,
                log_next_seq = 0, log_next_idx = 0\<rparr>"

definition next_record :: "(nat \<Rightarrow> size_t) \<Rightarrow> 'd log_state \<Rightarrow> u32 \<Rightarrow> u32" where
  "next_record junk s idx =
     (let l = read_len junk (log_buf s) (unat idx)
      in if l = 0 then 0 else ucast (ucast idx + l))"

definition NUL :: char where
  "NUL = CHR 0x00"

definition AF_INET :: u16 where "AF_INET = 2"
definition AF_INET6 :: u16 where "AF_INET6 = 10"

definition copy_ip :: "u8 list \<Rightarrow> u8 list \<Rightarrow> u16 \<Rightarrow> u8 list" where
  "copy_ip slot from fam =
     (if fam = AF_INET then take 4 from @ drop 4 slot
      else if fam = AF_INET6 then take 16 from @ drop 16 slot
      else slot)"

function evict_until_free :: "layout \<Rightarrow> (nat \<Rightarrow> size_t) \<Rightarrow> size_t \<Rightarrow> 'd log_state \<Rightarrow> 'd log_state" where
  "evict_until_free L junk sz s =
     (if log_first_seq s < log_next_seq s
      then (let free :: size_t =
                  (if log_next_idx s > log_first_idx s
                   then ucast (max (LOG_BUF_LEN L - log_next_idx s) (log_first_idx s))
                   else ucast (log_first_idx s - log_next_idx s))
            in if free > sz + sizeof_sec_log L then s
               else evict_until_free L junk sz
                      (s\<lparr>log_first_idx := next_record junk s (log_first_idx s),
                         log_first_seq := log_first_seq s + 1\<rparr>))
      else s)"
  by pat_completeness auto
termination
proof (relation "measure (\<lambda>(L, junk, sz, s). unat (log_next_seq s) - unat (log_first_seq s))",
       goal_cases)
  case 1
  show ?case by simp
next
  case (2 L junk sz s free)
  have "unat (log_first_seq s + 1) = unat (log_first_seq s) + 1"
    using 2(1) by unat_arith
  moreover have "unat (log_first_seq s) < unat (log_next_seq s)"
    using 2(1) by (simp add: word_less_nat_alt)
  ultimately show ?case
    by simp
qed


declare evict_until_free.simps [simp del]

definition align_up :: "layout \<Rightarrow> size_t \<Rightarrow> size_t" where
  "align_up L sz = sz + ((- sz) AND (LOG_ALIGN L - 1))"

definition find_new_record_place ::
  "layout \<Rightarrow> (nat \<Rightarrow> size_t) \<Rightarrow> size_t \<Rightarrow> 'd log_state \<Rightarrow> 'd log_state" where
  "find_new_record_place L junk sz0 s0 =
     (let sz = align_up L sz0;
          s = evict_until_free L junk sz s0
      in if ucast (log_next_idx s) + sz + sizeof_sec_log L \<ge> ucast (LOG_BUF_LEN L)
         then s\<lparr>log_buf := overwrite (log_buf s) (unat (log_next_idx s)) 8 Zeroed,
                log_next_idx := 0\<rparr>
         else s)"

text \<open>
  What the caller's environment contributes to one store call: the snapshot
  \<open>fill_current_details\<close> writes, the bytes that were in the arena where the two address
  slots of the new record come to lie (\<open>copy_ip\<close> overwrites only part of a slot), and the
  values the eviction loop would read from overwritten arena bytes.
\<close>

record 'd store_env =
  current :: 'd
  stale_src :: "u8 list"
  stale_dst :: "u8 list"
  junk_len :: "nat \<Rightarrow> size_t"

definition INT_MAX :: u32 where
  "INT_MAX = 0x7FFFFFFF"

definition netlog_path_len :: "layout \<Rightarrow> string \<Rightarrow> size_t" where
  "netlog_path_len L p =
     (let path_len = of_nat (length p) + 1
      in if path_len > ucast (drop_bit 4 (LOG_BUF_LEN L)) \<or> path_len > ucast INT_MAX
         then ucast (min (drop_bit 4 (LOG_BUF_LEN L)) INT_MAX)
         else path_len)"

definition netlog_record ::
  "layout \<Rightarrow> 'd store_env \<Rightarrow> string \<Rightarrow> netlog_action \<Rightarrow> netlog_protocol \<Rightarrow> u16
     \<Rightarrow> u8 list option \<Rightarrow> int \<Rightarrow> u8 list option \<Rightarrow> int \<Rightarrow> 'd netlog_log" where
  "netlog_record L env p act proto fam src_ip sport dst_ip dport =
     (let path_len = netlog_path_len L p;
          record_size = sizeof_netlog_log L + path_len
      in \<lparr>header = \<lparr>len = record_size, process = current env\<rparr>,
          path_len = path_len,
          protocol = proto,
          action = act,
          family = fam,
          src_port = sport,
          dst_port = dport,
          src = (case src_ip of None \<Rightarrow> replicate 16 0
                 | Some a \<Rightarrow> copy_ip (stale_src env) a fam),
          dst = (case dst_ip of None \<Rightarrow> replicate 16 0
                 | Some a \<Rightarrow> copy_ip (stale_dst env) a fam),
          path = take (unat path_len) (p @ [NUL])\<rparr>)"

definition commit_record :: "'d log_entry \<Rightarrow> 'd log_state \<Rightarrow> 'd log_state" where
  "commit_record e s =
     s\<lparr>log_buf := overwrite (log_buf s) (unat (log_next_idx s))
                    (unat (len (entry_header e))) (Entry e),
       log_next_idx := log_next_idx s + ucast (len (entry_header e)),
       log_next_seq := log_next_seq s + 1\<rparr>"

definition store_netlog_record ::
  "layout \<Rightarrow> 'd store_env \<Rightarrow> string \<Rightarrow> netlog_action \<Rightarrow> netlog_protocol \<Rightarrow> u16
     \<Rightarrow> u8 list option \<Rightarrow> int \<Rightarrow> u8 list option \<Rightarrow> int \<Rightarrow> 'd log_state \<Rightarrow> 'd log_state" where
  "store_netlog_record L env p act proto fam src_ip sport dst_ip dport s =
     (let r = netlog_record L env p act proto fam src_ip sport dst_ip dport
      in commit_record (Netlog r)
           (find_new_record_place L (junk_len env) (len (header r)) s))"

definition execlog_path_len :: "layout \<Rightarrow> string \<Rightarrow> size_t" where
  "execlog_path_len L p =
     (let path_len = of_nat (length p) + 1
      in if path_len > ucast (drop_bit 5 (LOG_BUF_LEN L)) \<or> path_len > ucast INT_MAX
         then ucast (min (drop_bit 5 (LOG_BUF_LEN L)) INT_MAX)
         else path_len)"

definition execlog_argv_size :: "layout \<Rightarrow> size_t \<Rightarrow> size_t" where
  "execlog_argv_size L argv_size =
     (if argv_size > ucast (drop_bit 5 (LOG_BUF_LEN L)) \<or> argv_size > ucast INT_MAX
      then ucast (min (drop_bit 5 (LOG_BUF_LEN L)) INT_MAX)
      else argv_size)"

definition execlog_record ::
  "layout \<Rightarrow> 'd store_env \<Rightarrow> string \<Rightarrow> string \<Rightarrow> size_t \<Rightarrow> 'd execlog_log" where
  "execlog_record L env p args argv_size0 =
     (let path_len = execlog_path_len L p;
          argv_size = execlog_argv_size L argv_size0;
          record_size = sizeof_execlog_log L + path_len + argv_size
      in \<lparr>exec_header = \<lparr>len = record_size, process = current env\<rparr>,
          exec_path_len = path_len,
          argv_len = argv_size,
          exec_path = take (unat path_len) (p @ [NUL]),
          argv = take (unat argv_size) args\<rparr>)"

definition store_execlog_record ::
  "layout \<Rightarrow> 'd store_env \<Rightarrow> string \<Rightarrow> string \<Rightarrow> size_t \<Rightarrow> 'd log_state \<Rightarrow> 'd log_state" where
  "store_execlog_record L env p args argv_size s =
     (let r = execlog_record L env p args argv_size
      in commit_record (Execlog r)
           (find_new_record_place L (junk_len env) (len (exec_header r)) s))"


subsection \<open>Reader sessions\<close>

record user_data =
  log_curr_seq :: u64
  log_curr_idx :: u32
  simple_format :: bool
  send_eof :: bool
  buf :: string

definition EBADF :: int where "EBADF = 9"
definition EAGAIN :: int where "EAGAIN = 11"
definition EFAULT :: int where "EFAULT = 14"
definition EINVAL :: int where "EINVAL = 22"
definition EPIPE :: int where "EPIPE = 32"

definition SEEK_SET :: int where "SEEK_SET = 0"
definition SEEK_CUR :: int where "SEEK_CUR = 1"
definition SEEK_END :: int where "SEEK_END = 2"

definition secure_log_llseek ::
  "'d log_state \<Rightarrow> user_data option \<Rightarrow> int \<Rightarrow> int \<Rightarrow> int \<times> user_data option" where
  "secure_log_llseek s private_data offset whence =
     (case private_data of
        None \<Rightarrow> (- EBADF, None)
      | Some d \<Rightarrow>
          if offset \<noteq> 0 then (0, Some d)
          else if whence = SEEK_SET
          then (0, Some (d\<lparr>log_curr_seq := log_first_seq s, log_curr_idx := log_first_idx s\<rparr>))
          else if whence = SEEK_CUR then (0, Some d)
          else if whence = SEEK_END
          then (0, Some (d\<lparr>log_curr_seq := log_next_seq s, log_curr_idx := log_next_idx s\<rparr>))
          else (- EINVAL, Some d))"

text \<open>
  The formatting helpers that are not in the file: the accessor and the
  \<open>CURRENT_DETAILS_FORMAT\<close> rendering of \<open>struct current_details\<close>, and
  \<open>print_netlog\<close>, taken to behave like \<open>snprintf\<close> (\<open>None\<close> is a negative return).
\<close>

record 'd codec =
  nsec :: "'d \<Rightarrow> u64"
  details :: "'d \<Rightarrow> string"
  print_netlog :: "netlog_protocol \<Rightarrow> u16 \<Rightarrow> netlog_action \<Rightarrow> u8 list \<Rightarrow> int
                     \<Rightarrow> u8 list \<Rightarrow> int \<Rightarrow> string option"

definition LF :: char where
  "LF = CHR 0x0A"

definition digit :: "nat \<Rightarrow> char" where
  "digit n = ''0123456789'' ! n"

function dec :: "nat \<Rightarrow> string" where
  "dec n = (if n < 10 then [digit n] else dec (n div 10) @ [digit (n mod 10)])"
  by pat_completeness auto
termination
  by (relation "measure id") auto

declare dec.simps [simp del]

definition pad :: "nat \<Rightarrow> char \<Rightarrow> string \<Rightarrow> string" where
  "pad w c t = replicate (w - length t) c @ t"

text \<open>
  The list \<open>b\<close> that the writes below work on is the memory from \<open>data->buf\<close> on: its
  first \<open>USER_BUFFER_SIZE\<close> bytes are the buffer, which is the last member of
  \<open>struct user_data\<close>, and a write that goes further lands in what lies behind the
  structure.  \<open>poke b at t\<close> writes the bytes \<open>t\<close> at offset \<open>at\<close>; the list grows when the
  write ends behind it (bytes between the end of the list and \<open>at\<close>, which no write of
  this file leaves when the list holds the whole buffer, are taken as NUL).
\<close>

definition poke :: "string \<Rightarrow> nat \<Rightarrow> string \<Rightarrow> string" where
  "poke b at t = take at b @ replicate (at - length b) NUL @ t @ drop (at + length t) b"

text \<open>\<open>sprintf(buf + at, t)\<close>: the text and its terminator, with no bound.\<close>

definition sprintf_at :: "string \<Rightarrow> nat \<Rightarrow> string \<Rightarrow> string" where
  "sprintf_at b at t = poke b at (t @ [NUL])"

text \<open>\<open>snprintf(buf + at, remaining, t)\<close>; its return value is \<open>length t\<close>.\<close>

definition snprintf_at :: "string \<Rightarrow> nat \<Rightarrow> size_t \<Rightarrow> string \<Rightarrow> string" where
  "snprintf_at b at remaining t =
     (if remaining = 0 then b else poke b at (take (unat remaining - 1) t @ [NUL]))"

text \<open>\<open>UPDATE_POINTERS\<close>: \<open>None\<close> is the \<open>return 0\<close> of the enclosing function.\<close>

definition UPDATE_POINTERS :: "size_t \<Rightarrow> size_t \<Rightarrow> size_t \<Rightarrow> (size_t \<times> size_t) option" where
  "UPDATE_POINTERS change remaining ln =
     (if change \<ge> remaining then None else Some (remaining - change, ln + change))"

text \<open>\<open>%.*s\<close> with precision \<open>n\<close> on the bytes \<open>t\<close>.\<close>

definition precision_s :: "size_t \<Rightarrow> string \<Rightarrow> string" where
  "precision_s n t = takeWhile (\<lambda>c. c \<noteq> NUL) (take (unat n) t)"

definition netlog_print ::
  "layout \<Rightarrow> 'd codec \<Rightarrow> 'd netlog_log \<Rightarrow> string \<Rightarrow> size_t \<Rightarrow> size_t \<times> string" where
  "netlog_print L C r data ln =
     (let remaining = USER_BUFFER_SIZE L - ln
      in if len (header r) < sizeof_netlog_log L
         then (let t = ''BROKEN RECCORD'';
                   data1 = snprintf_at data (unat ln) remaining t
               in case UPDATE_POINTERS (of_nat (length t)) remaining ln of
                    None \<Rightarrow> (0, data1)
                  | Some (remaining1, ln1) \<Rightarrow> (ln1, data1))
         else (let t = precision_s (path_len r) (path r) @ '' '';
                   data1 = snprintf_at data (unat ln) remaining t
               in case UPDATE_POINTERS (of_nat (length t)) remaining ln of
                    None \<Rightarrow> (0, data1)
                  | Some (remaining1, ln1) \<Rightarrow>
                      (case print_netlog C (protocol r) (family r) (action r)
                              (src r) (src_port r) (dst r) (dst_port r) of
                         None \<Rightarrow> (0, data1)
                       | Some t2 \<Rightarrow>
                           (let data2 = snprintf_at data1 (unat ln1) remaining1 t2
                            in case UPDATE_POINTERS (of_nat (length t2)) remaining1 ln1 of
                                 None \<Rightarrow> (0, data2)
                               | Some (remaining2, ln2) \<Rightarrow> (ln2, data2)))))"

definition execlog_print ::
  "layout \<Rightarrow> 'd execlog_log \<Rightarrow> string \<Rightarrow> size_t \<Rightarrow> size_t \<times> string" where
  "execlog_print L r data ln =
     (let remaining = USER_BUFFER_SIZE L - ln
      in if len (exec_header r) < sizeof_execlog_log L
         then (let t = ''BROKEN RECCORD'';
                   data1 = snprintf_at data (unat ln) remaining t
               in case UPDATE_POINTERS (of_nat (length t)) remaining ln of
                    None \<Rightarrow> (0, data1)
                  | Some (remaining1, ln1) \<Rightarrow> (ln1, data1))
         else (let t = precision_s (exec_path_len r) (exec_path r) @ '' ''
                         @ precision_s (argv_len r) (argv r);
                   data1 = snprintf_at data (unat ln) remaining t
               in case UPDATE_POINTERS (of_nat (length t)) remaining ln of
                    None \<Rightarrow> (0, data1)
                  | Some (remaining1, ln1) \<Rightarrow> (ln1, data1)))"

fun get_module_name :: "'d log_entry \<Rightarrow> string" where
  "get_module_name (Netlog r) = ''netlog''"
| "get_module_name (Execlog r) = ''execlog''"

definition secure_log_read_fill_record ::
  "layout \<Rightarrow> 'd codec \<Rightarrow> string \<Rightarrow> size_t \<Rightarrow> 'd log_entry \<Rightarrow> size_t \<times> string" where
  "secure_log_read_fill_record L C b ln0 e =
     (let t = details C (process (entry_header e)) @ '' '';
          b1 = sprintf_at b (unat ln0) t
      in case (case e of
                 Netlog r \<Rightarrow> netlog_print L C r b1 (ln0 + of_nat (length t))
               | Execlog r \<Rightarrow> execlog_print L r b1 (ln0 + of_nat (length t))) of
           (ln1, b2) \<Rightarrow>
             (case (if ln1 = 0
                    then (USER_BUFFER_SIZE L - 2,
                          sprintf_at b2 (unat (USER_BUFFER_SIZE L - 7)) ''TRUNC'')
                    else (ln1, b2)) of
                (ln2, b3) \<Rightarrow> (ln2 + 1, sprintf_at b3 (unat ln2) [LF])))"

definition log_header :: "layout \<Rightarrow> 'd codec \<Rightarrow> bool \<Rightarrow> 'd log_entry \<Rightarrow> string" where
  "log_header L C simple e =
     (let ts = nsec C (process (entry_header e)) div 1000000000;
          rem_nsec = nsec C (process (entry_header e)) mod 1000000000;
          stamp = ''['' @ pad 5 CHR '' '' (dec (unat ts)) @ ''.''
                    @ pad 6 CHR ''0'' (dec (unat (rem_nsec div 1000))) @ '']: ''
      in if \<not> simple
         then ''<'' @ dec (LOG_PRIORITY L) @ ''>1 - - '' @ get_module_name e @ '' - - - '' @ stamp
         else get_module_name e @ '' '' @ stamp)"

text \<open>
  The record a cursor stands for: the one at the cursor, or the one at offset 0 when the
  length read at the cursor is 0.  \<open>None\<close>: the bytes there are not a record any store
  call wrote.
\<close>

definition current_record :: "(nat \<Rightarrow> size_t) \<Rightarrow> 'd log_state \<Rightarrow> u32 \<Rightarrow> 'd log_entry option" where
  "current_record junk s idx =
     (case log_buf s (if read_len junk (log_buf s) (unat idx) = 0 then 0 else unat idx) of
        Entry e \<Rightarrow> Some e
      | _ \<Rightarrow> None)"

record read_env =
  nonblock :: bool
  lock_err :: int
  copy_fails :: bool
  junk :: "nat \<Rightarrow> size_t"

datatype outcome = Ret int string | Sleeps

text \<open>
  The part of \<open>secure_log_read\<close> from \<open>ts = record->process.nsec\<close> on: render record
  \<open>e\<close> into \<open>data->buf\<close>, advance the cursor, then check \<open>count\<close> and copy out.
\<close>

definition deliver ::
  "layout \<Rightarrow> 'd codec \<Rightarrow> read_env \<Rightarrow> size_t \<Rightarrow> 'd log_state \<Rightarrow> user_data \<Rightarrow> 'd log_entry
     \<Rightarrow> outcome \<times> user_data" where
  "deliver L C env count s d e =
     (let h = log_header L C (simple_format d) e;
          b0 = sprintf_at (buf d) 0 h
      in case secure_log_read_fill_record L C b0 (of_nat (length h)) e of
           (ln, b1) \<Rightarrow>
             (let d' = d\<lparr>buf := b1,
                          log_curr_idx := next_record (junk env) s (log_curr_idx d),
                          log_curr_seq := log_curr_seq d + 1\<rparr>
              in if ln > count then (Ret (- EINVAL) [], d')
                 else if copy_fails env then (Ret (- EFAULT) [], d')
                 else (Ret (uint ln) (take (unat ln) b1), d')))"

text \<open>
  \<open>secure_log_read\<close> for a session that exists.  \<open>Sleeps\<close>: the call drops the buffer lock
  and sleeps in \<open>wait_event_interruptible\<close>; nothing has changed, and what it does after
  the wake-up is this function again on the state of that moment.
\<close>

definition read_session ::
  "layout \<Rightarrow> 'd codec \<Rightarrow> read_env \<Rightarrow> size_t \<Rightarrow> 'd log_state \<Rightarrow> user_data
     \<Rightarrow> (outcome \<times> user_data) option" where
  "read_session L C env count s d =
     (if lock_err env \<noteq> 0 then Some (Ret (lock_err env) [], d)
      else if log_curr_seq d = log_next_seq s
      then (if nonblock env then Some (Ret (- EAGAIN) [], d)
            else if send_eof d then Some (Ret 0 [], d)
            else Some (Sleeps, d))
      else if log_curr_seq d < log_first_seq s
      then Some (Ret (- EPIPE) [],
                 d\<lparr>log_curr_seq := log_first_seq s, log_curr_idx := log_first_idx s\<rparr>)
      else (case current_record (junk env) s (log_curr_idx d) of
              None \<Rightarrow> None
            | Some e \<Rightarrow> Some (deliver L C env count s d e)))"

definition secure_log_read ::
  "layout \<Rightarrow> 'd codec \<Rightarrow> read_env \<Rightarrow> size_t \<Rightarrow> 'd log_state \<Rightarrow> user_data option
     \<Rightarrow> (outcome \<times> user_data option) option" where
  "secure_log_read L C env count s private_data =
     (case private_data of
        None \<Rightarrow> Some (Ret (- EBADF) [], None)
      | Some d \<Rightarrow> map_option (\<lambda>(r, d'). (r, Some d')) (read_session L C env count s d))"


text \<open>
  A caller that issues \<open>n\<close> reads one after the other on a buffer that does not change
  meanwhile: the outcomes in the order of the calls.
\<close>

fun reads ::
  "layout \<Rightarrow> 'd codec \<Rightarrow> read_env \<Rightarrow> size_t \<Rightarrow> 'd log_state \<Rightarrow> user_data \<Rightarrow> nat
     \<Rightarrow> outcome list option" where
  "reads L C env count s d 0 = Some []"
| "reads L C env count s d (Suc n) =
     (case read_session L C env count s d of
        None \<Rightarrow> None
      | Some (out, d') \<Rightarrow> map_option ((#) out) (reads L C env count s d' n))"


subsection \<open>Properties of a layout, rendered lines, and sequences of stores\<close>

text \<open>
  What the proofs need of the sizes that come from headers outside the sources at hand:
  \<open>LOG_ALIGN\<close> is positive and at most a page, \<open>struct sec_log\<close> is not empty and is the
  first member of both record structures, of which \<open>struct netlog_log\<close> is the larger, and
  a record structure is shorter than 64 KiB.
\<close>

definition layout_ok :: "layout \<Rightarrow> bool" where
  "layout_ok L \<longleftrightarrow>
     0 < unat (LOG_ALIGN L) \<and> unat (LOG_ALIGN L) \<le> 4096
     \<and> 0 < unat (sizeof_sec_log L)
     \<and> unat (sizeof_sec_log L) \<le> unat (sizeof_execlog_log L)
     \<and> unat (sizeof_execlog_log L) \<le> unat (sizeof_netlog_log L)
     \<and> unat (sizeof_netlog_log L) < 65536"



text \<open>
  A sequence of store calls, each with its arguments; the record a call builds; the calls
  run one after the other on a buffer.
\<close>

datatype 'd append =
    Store_net "'d store_env" string netlog_action netlog_protocol u16 "u8 list option" int
      "u8 list option" int
  | Store_exec "'d store_env" string string size_t

fun append_entry :: "layout \<Rightarrow> 'd append \<Rightarrow> 'd log_entry" where
  "append_entry L (Store_net env p act proto fam sip sp dip dp) =
     Netlog (netlog_record L env p act proto fam sip sp dip dp)"
| "append_entry L (Store_exec env p args n) = Execlog (execlog_record L env p args n)"

fun do_append :: "layout \<Rightarrow> 'd log_state \<Rightarrow> 'd append \<Rightarrow> 'd log_state" where
  "do_append L s (Store_net env p act proto fam sip sp dip dp) =
     store_netlog_record L env p act proto fam sip sp dip dp s"
| "do_append L s (Store_exec env p args n) = store_execlog_record L env p args n s"

definition appends :: "layout \<Rightarrow> 'd append list \<Rightarrow> 'd log_state \<Rightarrow> 'd log_state" where
  "appends L cs s = foldl (do_append L) s cs"

text \<open>
  \<open>walk j s n idx\<close> reads \<open>n\<close> records starting at \<open>idx\<close>, going from one to the next
  with \<open>next_record\<close>; it is \<open>None\<close> when it comes upon something that is not the start of
  a stored record.
\<close>

fun walk :: "(nat \<Rightarrow> size_t) \<Rightarrow> 'd log_state \<Rightarrow> nat \<Rightarrow> u32 \<Rightarrow> 'd log_entry list option" where
  "walk j s 0 idx = Some []"
| "walk j s (Suc n) idx =
     (case log_buf s (unat idx) of
        Entry e \<Rightarrow> map_option ((#) e) (walk j s n (next_record j s idx))
      | _ \<Rightarrow> None)"

text \<open>
  \<open>fits L off es\<close>: stored one after the other from offset \<open>off\<close>, none of the records
  \<open>es\<close> meets the test of \<open>find_new_record_place\<close> for wrapping, that is, every record
  finds its size rounded up to \<open>LOG_ALIGN\<close> plus one \<open>struct sec_log\<close> before the end of the
  arena.  The write offset advances by the length kept in the header.
\<close>

definition esize :: "'d log_entry \<Rightarrow> nat" where
  "esize e = unat (len (entry_header e))"

fun fits :: "layout \<Rightarrow> nat \<Rightarrow> 'd log_entry list \<Rightarrow> bool" where
  "fits L off [] = True"
| "fits L off (e # es) =
     (off + unat (align_up L (len (entry_header e))) + unat (sizeof_sec_log L)
        < unat (LOG_BUF_LEN L)
      \<and> fits L (off + esize e) es)"

text \<open>
  The invariant of a buffer that has only been appended to: the records \<open>es\<close> lie one
  behind the other from offset 0, the oldest retained record is the first one, and the
  write position is behind the last.
\<close>

fun laid_out :: "(nat \<Rightarrow> 'd cell) \<Rightarrow> nat \<Rightarrow> 'd log_entry list \<Rightarrow> bool" where
  "laid_out m off [] = True"
| "laid_out m off (e # es) = (m off = Entry e \<and> laid_out m (off + esize e) es)"

definition span :: "'d log_entry list \<Rightarrow> nat" where
  "span es = sum_list (map esize es)"

definition packed :: "'d log_state \<Rightarrow> 'd log_entry list \<Rightarrow> bool" where
  "packed s es \<longleftrightarrow>
     log_first_idx s = 0 \<and> log_first_seq s = 0
     \<and> unat (log_next_seq s) = length es
     \<and> unat (log_next_idx s) = span es
     \<and> laid_out (log_buf s) 0 es
     \<and> (\<forall>e \<in> set es. 0 < esize e)"

subsection \<open>A small configuration and a short history\<close>

text \<open>
  Concrete values for the constants that come from headers outside the sources at hand,
  small enough that a handful of records fill the arena; \<open>cramped\<close> is the same with a
  session buffer shorter than the path cap.  The snapshot of the producer is reduced to
  its timestamp.
\<close>

definition small :: layout where
  "small = \<lparr>LOG_BUF_LEN = 512, LOG_ALIGN = 8, sizeof_sec_log = 32, sizeof_netlog_log = 96,
            sizeof_execlog_log = 48, USER_BUFFER_SIZE = 128, LOG_PRIORITY = 38\<rparr>"


definition plain :: "u64 codec" where
  "plain = \<lparr>nsec = (\<lambda>d. d), details = (\<lambda>d. ''pid''),
            print_netlog = (\<lambda>proto fam act s sp d dp. Some ''TCP'')\<rparr>"

definition at_time :: "u64 \<Rightarrow> u64 store_env" where
  "at_time t = \<lparr>current = t, stale_src = replicate 16 7, stale_dst = replicate 16 7,
                junk_len = (\<lambda>_. 0)\<rparr>"

definition boot :: "u64 log_state" where
  "boot = \<lparr>log_buf = (\<lambda>_. Zeroed), log_first_seq = 0, log_first_idx = 0,
            log_next_seq = 0, log_next_idx = 0\<rparr>"

definition connect_by :: "string \<Rightarrow> u64 \<Rightarrow> u64 log_state \<Rightarrow> u64 log_state" where
  "connect_by p t s =
     store_netlog_record small (at_time t) p ACTION_CONNECT PROTO_TCP AF_INET None 1 None 2 s"

definition four_stored :: "u64 log_state" where
  "four_stored = connect_by ''/bin/d'' 4 (connect_by ''/bin/c'' 3
                   (connect_by ''/bin/b'' 2 (connect_by ''/bin/a'' 1 boot)))"

definition five_stored :: "u64 log_state" where
  "five_stored = connect_by ''/bin/e'' 5 four_stored"

definition six_stored :: "u64 log_state" where
  "six_stored = connect_by ''/bin/f'' 6 five_stored"

text \<open>
  Sessions: one that has never read, one that has read the first four records, and the
  read environment of a non-blocking caller.
\<close>

definition fresh :: user_data where
  "fresh = \<lparr>log_curr_seq = 0, log_curr_idx = 0, simple_format = True, send_eof = False,
            buf = replicate 128 CHR ''#''\<rparr>"

definition caught_up :: user_data where
  "caught_up = fresh\<lparr>log_curr_seq := 4, log_curr_idx := 412\<rparr>"

definition no_wait :: read_env where
  "no_wait = \<lparr>nonblock = True, lock_err = 0, copy_fails = False, junk = (\<lambda>_. 0)\<rparr>"

text \<open>
  The session \<open>caught_up\<close> after a read with an 8-byte buffer, issued when the fifth
  record has been stored.
\<close>

definition after_short_read :: user_data where
  "after_short_read =
     (case read_session small plain no_wait 8 five_stored caught_up of
        Some (r, d) \<Rightarrow> d
      | None \<Rightarrow> caught_up)"


text \<open>
  A path longer than the cap of the small arena, stored into an arena whose sessions
  have a 48-byte buffer, and a session with such a buffer; three stores of both kinds.
\<close>

definition long_path :: string where
  "long_path = ''0123456789012345678901234567890123456789''"



definition mixed_appends :: "u64 append list" where
  "mixed_appends =
     [Store_net (at_time 1) ''/bin/a'' ACTION_CONNECT PROTO_TCP AF_INET None 1 None 2,
      Store_exec (at_time 2) ''/bin/sh'' ''sh -c ls'' 8,
      Store_net (at_time 3) ''/bin/c'' ACTION_CONNECT PROTO_TCP AF_INET None 1 None 2]"

text \<open>
  The session \<open>caught_up\<close> after a read with a large buffer, issued when the fifth record
  has been stored.  Five stores whose records take 479 of the 512 bytes of the arena.
\<close>

definition after_wrap_read :: user_data where
  "after_wrap_read =
     (case read_session small plain no_wait 128 five_stored caught_up of
        Some (r, d) \<Rightarrow> d
      | None \<Rightarrow> caught_up)"

definition tight_appends :: "u64 append list" where
  "tight_appends =
     [Store_net (at_time 1) ''/bin/a'' ACTION_CONNECT PROTO_TCP AF_INET None 1 None 2,
      Store_net (at_time 2) ''/bin/b'' ACTION_CONNECT PROTO_TCP AF_INET None 1 None 2,
      Store_net (at_time 3) ''/bin/c'' ACTION_CONNECT PROTO_TCP AF_INET None 1 None 2,
      Store_exec (at_time 4) ''/bin/sh'' ''sh -c ls -l'' 11,
      Store_net (at_time 5) ''/bin/e'' ACTION_CONNECT PROTO_TCP AF_INET None 1 None 2]"

text \<open>
  The small configuration with a session buffer of 64 bytes, the length of the line of
  the record stored for \<open>long_path\<close>, and a session with such a buffer.
\<close>

definition snug :: layout where
  "snug = small\<lparr>USER_BUFFER_SIZE := 64\<rparr>"

definition fresh64 :: user_data where
  "fresh64 = fresh\<lparr>buf := replicate 64 CHR ''#''\<rparr>"

section \<open>Proofs: probe lifecycle manager\<close>

lemma and_shl1_iff: "p < 32 \<Longrightarrow> (w AND shl1 p \<noteq> 0) = bit w p"
  by (simp add: shl1_def and_exp_eq_0_iff_not_bit)

lemma bit_or_shl1: "p < 32 \<Longrightarrow> bit (w OR shl1 p) q = (bit w q \<or> q = p)"
  by (auto simp: shl1_def bit_simps)

lemma bit_new_probes: "bit ((probe XOR l) AND probe) p = (bit probe p \<and> \<not> bit l p)"
  by (auto simp: bit_simps)

lemma consistent_add:
  assumes "consistent c t" "p < 32"
  shows "consistent c (add_category c p t)"
  using assms by (auto simp: consistent_def bit_or_shl1 add_category_def)

lemma conf_ok_lt: "conf_ok c \<Longrightarrow> k < 6 \<Longrightarrow> categories c ! k < 32"
  by (auto simp: conf_ok_def categories_def nth_Cons' )

lemma conf_ok_distinct: "conf_ok c \<Longrightarrow> distinct (categories c)"
  by (simp add: conf_ok_def categories_def)

lemma planted_up_to_step:
  assumes ok: "conf_ok c" and k: "k < 6" and t: "planted_up_to k c probe s t"
  shows "planted_up_to (Suc k) c probe s
           (if bit probe (categories c ! k) \<and> \<not> bit (loaded_probes s) (categories c ! k)
            then add_category c (categories c ! k) t else t)"
proof -
  have len: "length (categories c) = 6" by (simp add: categories_def)
  have tk: "set (take (Suc k) (categories c)) = insert (categories c ! k) (set (take k (categories c)))"
    using k len by (simp add: take_Suc_conv_app_nth)
  have lt: "categories c ! k < 32" using ok k by (rule conf_ok_lt)
  show ?thesis
  proof (cases "bit probe (categories c ! k) \<and> \<not> bit (loaded_probes s) (categories c ! k)")
    case True
    have "consistent c (add_category c (categories c ! k) t)"
      using t lt by (simp add: planted_up_to_def consistent_add)
    moreover have "planted s \<subseteq> planted (add_category c (categories c ! k) t)"
      using t by (auto simp: planted_up_to_def add_category_def)
    moreover have "\<forall>q. bit (loaded_probes (add_category c (categories c ! k) t)) q =
              (bit (loaded_probes s) q \<or> (bit probe q \<and> q \<in> set (take (Suc k) (categories c))))"
      using t lt True by (auto simp: planted_up_to_def add_category_def bit_or_shl1 tk)
    ultimately show ?thesis using True by (simp add: planted_up_to_def)
  next
    case False
    have "\<forall>q. bit (loaded_probes t) q =
              (bit (loaded_probes s) q \<or> (bit probe q \<and> q \<in> set (take (Suc k) (categories c))))"
      using t False by (auto simp: planted_up_to_def tk)
    then show ?thesis using t False by (auto simp: planted_up_to_def)
  qed
qed

lemma hooks_of_category:
  assumes "conf_ok c"
  shows "{h. PROBE_TCP_CONNECT c \<in> set (needed_by c h)}
           = {stream_connect_kretprobe, stream_connect_jprobe}"
    and "{h. PROBE_TCP_ACCEPT c \<in> set (needed_by c h)} = {accept_kretprobe}"
    and "{h. PROBE_TCP_CLOSE c \<in> set (needed_by c h)} = {close_jprobe}"
    and "{h. PROBE_UDP_CONNECT c \<in> set (needed_by c h)}
           = {dgram_connect_kretprobe, dgram_connect_jprobe}"
    and "{h. PROBE_UDP_BIND c \<in> set (needed_by c h)} = {bind_kretprobe, bind_jprobe}"
    and "{h. PROBE_UDP_CLOSE c \<in> set (needed_by c h)} = {close_jprobe}"
proof -
  have d: "distinct [PROBE_TCP_CONNECT c, PROBE_TCP_ACCEPT c, PROBE_TCP_CLOSE c,
               PROBE_UDP_CONNECT c, PROBE_UDP_BIND c, PROBE_UDP_CLOSE c]"
    using assms by (simp add: conf_ok_def)
  show "{h. PROBE_TCP_CONNECT c \<in> set (needed_by c h)}
           = {stream_connect_kretprobe, stream_connect_jprobe}"
    apply (rule set_eqI) subgoal for h using d by (cases h) auto done
  show "{h. PROBE_TCP_ACCEPT c \<in> set (needed_by c h)} = {accept_kretprobe}"
    apply (rule set_eqI) subgoal for h using d by (cases h) auto done
  show "{h. PROBE_TCP_CLOSE c \<in> set (needed_by c h)} = {close_jprobe}"
    apply (rule set_eqI) subgoal for h using d by (cases h) auto done
  show "{h. PROBE_UDP_CONNECT c \<in> set (needed_by c h)}
           = {dgram_connect_kretprobe, dgram_connect_jprobe}"
    apply (rule set_eqI) subgoal for h using d by (cases h) auto done
  show "{h. PROBE_UDP_BIND c \<in> set (needed_by c h)} = {bind_kretprobe, bind_jprobe}"
    apply (rule set_eqI) subgoal for h using d by (cases h) auto done
  show "{h. PROBE_UDP_CLOSE c \<in> set (needed_by c h)} = {close_jprobe}"
    apply (rule set_eqI) subgoal for h using d by (cases h) auto done
qed

lemma plant_pair_tcp:
  "stream_connect_jprobe \<notin> planted t \<Longrightarrow>
   plant_tcp_connect c reg t =
     (if reg stream_connect_jprobe < 0 \<or> reg stream_connect_kretprobe < 0
      then (- CONNECT_PROBE_FAILED c, t)
      else (0, t\<lparr>planted := {stream_connect_kretprobe, stream_connect_jprobe} \<union> planted t\<rparr>))"
  by (simp add: plant_tcp_connect_def plant_jprobe_def plant_kretprobe_def unplant_jprobe_def Let_def)

lemma plant_pair_udp:
  "dgram_connect_jprobe \<notin> planted t \<Longrightarrow>
   plant_udp_connect c reg t =
     (if reg dgram_connect_jprobe < 0 \<or> reg dgram_connect_kretprobe < 0
      then (- CONNECT_PROBE_FAILED c, t)
      else (0, t\<lparr>planted := {dgram_connect_kretprobe, dgram_connect_jprobe} \<union> planted t\<rparr>))"
  by (simp add: plant_udp_connect_def plant_jprobe_def plant_kretprobe_def unplant_jprobe_def Let_def)

lemma plant_pair_bind:
  "bind_jprobe \<notin> planted t \<Longrightarrow>
   plant_udp_bind c reg t =
     (if reg bind_jprobe < 0 \<or> reg bind_kretprobe < 0
      then (- BIND_PROBE_FAILED c, t)
      else (0, t\<lparr>planted := {bind_kretprobe, bind_jprobe} \<union> planted t\<rparr>))"
  by (simp add: plant_udp_bind_def plant_jprobe_def plant_kretprobe_def unplant_jprobe_def Let_def)

lemma plant_single_accept:
  "plant_tcp_accept c reg t =
     (if reg accept_kretprobe < 0 then (- ACCEPT_PROBE_FAILED c, t)
      else (0, t\<lparr>planted := {accept_kretprobe} \<union> planted t\<rparr>))"
  by (simp add: plant_tcp_accept_def plant_kretprobe_def Let_def)

lemma plant_single_close:
  "plant_close c reg t =
     (if reg close_jprobe < 0 then (- CLOSE_PROBE_FAILED c, t)
      else (0, t\<lparr>planted := {close_jprobe} \<union> planted t\<rparr>))"
  by (simp add: plant_close_def plant_jprobe_def Let_def)

lemma not_planted_if_inactive:
  "consistent c t \<Longrightarrow> \<forall>q \<in> set (needed_by c h). \<not> bit (loaded_probes t) q \<Longrightarrow> h \<notin> planted t"
  by (simp add: consistent_def)

lemma block_tcp_connect_closed_form:
  assumes ok: "conf_ok c" and t: "consistent c t"
    and nb: "bit new (PROBE_TCP_CONNECT c) \<longrightarrow> \<not> bit (loaded_probes t) (PROBE_TCP_CONNECT c)"
  shows "plant_block new (PROBE_TCP_CONNECT c) (plant_tcp_connect c reg) t =
     (if bit new (PROBE_TCP_CONNECT c)
      then if reg stream_connect_jprobe < 0 \<or> reg stream_connect_kretprobe < 0
           then Inl (- CONNECT_PROBE_FAILED c, t)
           else Inr (add_category c (PROBE_TCP_CONNECT c) t)
      else Inr t)"
proof -
  have "PROBE_TCP_CONNECT c < 32" "CONNECT_PROBE_FAILED c \<noteq> 0"
    using ok by (simp_all add: conf_ok_def)
  moreover have "bit new (PROBE_TCP_CONNECT c) \<Longrightarrow> stream_connect_jprobe \<notin> planted t"
    using t nb by (simp add: consistent_def)
  ultimately show ?thesis
    by (simp add: plant_block_def and_shl1_iff plant_pair_tcp add_category_def
        hooks_of_category [OF ok])
qed

lemma block_udp_connect_closed_form:
  assumes ok: "conf_ok c" and t: "consistent c t"
    and nb: "bit new (PROBE_UDP_CONNECT c) \<longrightarrow> \<not> bit (loaded_probes t) (PROBE_UDP_CONNECT c)"
  shows "plant_block new (PROBE_UDP_CONNECT c) (plant_udp_connect c reg) t =
     (if bit new (PROBE_UDP_CONNECT c)
      then if reg dgram_connect_jprobe < 0 \<or> reg dgram_connect_kretprobe < 0
           then Inl (- CONNECT_PROBE_FAILED c, t)
           else Inr (add_category c (PROBE_UDP_CONNECT c) t)
      else Inr t)"
proof -
  have "PROBE_UDP_CONNECT c < 32" "CONNECT_PROBE_FAILED c \<noteq> 0"
    using ok by (simp_all add: conf_ok_def)
  moreover have "bit new (PROBE_UDP_CONNECT c) \<Longrightarrow> dgram_connect_jprobe \<notin> planted t"
    using t nb by (simp add: consistent_def)
  ultimately show ?thesis
    by (simp add: plant_block_def and_shl1_iff plant_pair_udp add_category_def
        hooks_of_category [OF ok])
qed

lemma block_udp_bind_closed_form:
  assumes ok: "conf_ok c" and t: "consistent c t"
    and nb: "bit new (PROBE_UDP_BIND c) \<longrightarrow> \<not> bit (loaded_probes t) (PROBE_UDP_BIND c)"
  shows "plant_block new (PROBE_UDP_BIND c) (plant_udp_bind c reg) t =
     (if bit new (PROBE_UDP_BIND c)
      then if reg bind_jprobe < 0 \<or> reg bind_kretprobe < 0
           then Inl (- BIND_PROBE_FAILED c, t)
           else Inr (add_category c (PROBE_UDP_BIND c) t)
      else Inr t)"
proof -
  have "PROBE_UDP_BIND c < 32" "BIND_PROBE_FAILED c \<noteq> 0"
    using ok by (simp_all add: conf_ok_def)
  moreover have "bit new (PROBE_UDP_BIND c) \<Longrightarrow> bind_jprobe \<notin> planted t"
    using t nb by (simp add: consistent_def)
  ultimately show ?thesis
    by (simp add: plant_block_def and_shl1_iff plant_pair_bind add_category_def
        hooks_of_category [OF ok])
qed

lemma block_accept_closed_form:
  assumes ok: "conf_ok c"
  shows "plant_block new (PROBE_TCP_ACCEPT c) (plant_tcp_accept c reg) t =
     (if bit new (PROBE_TCP_ACCEPT c)
      then if reg accept_kretprobe < 0
           then Inl (- ACCEPT_PROBE_FAILED c, t)
           else Inr (add_category c (PROBE_TCP_ACCEPT c) t)
      else Inr t)"
proof -
  have "PROBE_TCP_ACCEPT c < 32" "ACCEPT_PROBE_FAILED c \<noteq> 0"
    using ok by (simp_all add: conf_ok_def)
  then show ?thesis
    by (simp add: plant_block_def and_shl1_iff plant_single_accept add_category_def
        hooks_of_category [OF ok])
qed

lemma block_close_closed_form:
  assumes ok: "conf_ok c" and t: "consistent c t"
    and ps: "(p = PROBE_TCP_CLOSE c \<and> sibling = PROBE_UDP_CLOSE c)
           \<or> (p = PROBE_UDP_CLOSE c \<and> sibling = PROBE_TCP_CLOSE c)"
  shows "plant_close_block c reg new p sibling t =
     (if bit new p
      then if \<not> bit (loaded_probes t) sibling \<and> reg close_jprobe < 0
           then Inl (- CLOSE_PROBE_FAILED c, t)
           else Inr (add_category c p t)
      else Inr t)"
proof -
  have lt: "p < 32" "sibling < 32" and nz: "CLOSE_PROBE_FAILED c \<noteq> 0"
    using ok ps by (auto simp: conf_ok_def)
  have hk: "{h. p \<in> set (needed_by c h)} = {close_jprobe}"
    using ps hooks_of_category [OF ok] by auto
  have pl: "bit (loaded_probes t) sibling \<Longrightarrow> close_jprobe \<in> planted t"
    using t ps by (auto simp: consistent_def)
  have eq: "bit (loaded_probes t) sibling \<Longrightarrow>
           t\<lparr>loaded_probes := loaded_probes t OR shl1 p\<rparr> = add_category c p t"
    using pl by (simp add: add_category_def hk insert_absorb)
  show ?thesis
    using lt nz eq
    by (simp add: plant_close_block_def and_shl1_iff plant_single_close)
      (simp add: add_category_def hk)
qed

lemma stage_step:
  assumes ok: "conf_ok c" and k: "k < 6"
    and r: "stage_outcome c reg probe s k r"
    and f: "\<And>t. planted_up_to k c probe s t \<Longrightarrow>
              f t = (if bit probe (categories c ! k) \<and> \<not> bit (loaded_probes s) (categories c ! k)
                     then if registration_fails c reg probe s k
                          then Inl (- failure_codes c ! k, t)
                          else Inr (add_category c (categories c ! k) t)
                     else Inr t)"
    and nz: "failure_codes c ! k \<noteq> 0"
  shows "stage_outcome c reg probe s (Suc k) (then_block r f)"
proof (cases r)
  case (Inl a)
  then show ?thesis
    using r by (auto simp: stage_outcome_def then_block_def intro: less_SucI)
next
  case (Inr t)
  then have t: "planted_up_to k c probe s t"
    and nf: "\<forall>j<k. \<not> planting_fails c reg probe s j"
    using r by (simp_all add: stage_outcome_def)
  have nxt: "planted_up_to (Suc k) c probe s
           (if bit probe (categories c ! k) \<and> \<not> bit (loaded_probes s) (categories c ! k)
            then add_category c (categories c ! k) t else t)"
    using ok k t by (rule planted_up_to_step)
  show ?thesis
  proof (cases "planting_fails c reg probe s k")
    case True
    then have "then_block r f = Inl (- failure_codes c ! k, t)"
      using Inr f [OF t] by (simp add: then_block_def planting_fails_def)
    then show ?thesis
      using True t nf nz by (auto simp: stage_outcome_def)
  next
    case False
    then have "then_block r f =
        Inr (if bit probe (categories c ! k) \<and> \<not> bit (loaded_probes s) (categories c ! k)
             then add_category c (categories c ! k) t else t)"
      using Inr f [OF t] by (auto simp: then_block_def planting_fails_def)
    then show ?thesis
      using False nxt nf by (auto simp: stage_outcome_def less_Suc_eq)
  qed
qed

lemma planted_up_to_bit:
  assumes "conf_ok c" "planted_up_to k c probe s t" "i < 6"
  shows "bit (loaded_probes t) (categories c ! i) =
         (bit (loaded_probes s) (categories c ! i) \<or> (bit probe (categories c ! i) \<and> i < k))"
proof -
  have d: "distinct (categories c)" using assms(1) by (rule conf_ok_distinct)
  have len: "length (categories c) = 6" by (simp add: categories_def)
  have "categories c ! i \<in> set (take k (categories c)) \<longleftrightarrow> i < k"
  proof
    assume "categories c ! i \<in> set (take k (categories c))"
    then obtain j where j: "j < length (take k (categories c))"
      "take k (categories c) ! j = categories c ! i"
      by (auto simp: in_set_conv_nth)
    then have "categories c ! j = categories c ! i" "j < k" "j < 6"
      using len by auto
    then have "j = i" using d len assms(3) by (simp add: nth_eq_iff_index_eq)
    then show "i < k" using \<open>j < k\<close> by simp
  next
    assume "i < k"
    then have "take k (categories c) ! i = categories c ! i" "i < length (take k (categories c))"
      using len assms(3) by auto
    then show "categories c ! i \<in> set (take k (categories c))"
      by (metis nth_mem)
  qed
  then show ?thesis using assms(2) by (simp add: planted_up_to_def)
qed

lemma stage0_form:
  assumes ok: "conf_ok c" and t: "planted_up_to 0 c probe s t"
  shows "plant_block ((probe XOR loaded_probes s) AND probe) (PROBE_TCP_CONNECT c) (plant_tcp_connect c reg) t =
          (if bit probe (categories c ! 0) \<and> \<not> bit (loaded_probes s) (categories c ! 0)
           then if registration_fails c reg probe s 0
                then Inl (- failure_codes c ! 0, t)
                else Inr (add_category c (categories c ! 0) t)
           else Inr t)"
proof -
  have c: "consistent c t" using t by (simp add: planted_up_to_def)
  have k: "categories c ! 0 = PROBE_TCP_CONNECT c" by (simp add: categories_def)
  have b: "bit (loaded_probes t) (PROBE_TCP_CONNECT c) = bit (loaded_probes s) (PROBE_TCP_CONNECT c)"
    using planted_up_to_bit [OF ok t, of 0] by (simp add: categories_def)
  show ?thesis
    unfolding k using b block_tcp_connect_closed_form [OF ok c, of "((probe XOR loaded_probes s) AND probe)" reg]
    by (simp add: bit_new_probes registration_fails_def failure_codes_def)
qed

lemma stage1_form:
  assumes ok: "conf_ok c" and t: "planted_up_to 1 c probe s t"
  shows "plant_block ((probe XOR loaded_probes s) AND probe) (PROBE_TCP_ACCEPT c) (plant_tcp_accept c reg) t =
          (if bit probe (categories c ! 1) \<and> \<not> bit (loaded_probes s) (categories c ! 1)
           then if registration_fails c reg probe s 1
                then Inl (- failure_codes c ! 1, t)
                else Inr (add_category c (categories c ! 1) t)
           else Inr t)"
proof -
  have c: "consistent c t" using t by (simp add: planted_up_to_def)
  have k: "categories c ! 1 = PROBE_TCP_ACCEPT c" by (simp add: categories_def)
  have b: "bit (loaded_probes t) (PROBE_TCP_ACCEPT c) = bit (loaded_probes s) (PROBE_TCP_ACCEPT c)"
    using planted_up_to_bit [OF ok t, of 1] by (simp add: categories_def)
  show ?thesis
    unfolding k using b block_accept_closed_form [OF ok, of "((probe XOR loaded_probes s) AND probe)" reg t]
    by (simp add: bit_new_probes registration_fails_def failure_codes_def)
qed

lemma stage2_form:
  assumes ok: "conf_ok c" and t: "planted_up_to 2 c probe s t"
  shows "plant_close_block c reg ((probe XOR loaded_probes s) AND probe) (PROBE_TCP_CLOSE c) (PROBE_UDP_CLOSE c) t =
          (if bit probe (categories c ! 2) \<and> \<not> bit (loaded_probes s) (categories c ! 2)
           then if registration_fails c reg probe s 2
                then Inl (- failure_codes c ! 2, t)
                else Inr (add_category c (categories c ! 2) t)
           else Inr t)"
proof -
  have c: "consistent c t" using t by (simp add: planted_up_to_def)
  have k: "categories c ! 2 = PROBE_TCP_CLOSE c" by (simp add: categories_def)
  have b: "bit (loaded_probes t) (PROBE_TCP_CLOSE c) = bit (loaded_probes s) (PROBE_TCP_CLOSE c)"
    using planted_up_to_bit [OF ok t, of 2] by (simp add: categories_def)
  have "bit (loaded_probes t) (categories c ! 5) = bit (loaded_probes s) (categories c ! 5)"
    using planted_up_to_bit [OF ok t, of 5] by simp
  then have sib: "bit (loaded_probes t) (PROBE_UDP_CLOSE c) = bit (loaded_probes s) (PROBE_UDP_CLOSE c)"
    by (simp add: categories_def)
  show ?thesis
    unfolding k using b block_close_closed_form [OF ok c, of "PROBE_TCP_CLOSE c" "PROBE_UDP_CLOSE c" reg "((probe XOR loaded_probes s) AND probe)"] sib
    by (simp add: bit_new_probes registration_fails_def failure_codes_def)
qed

lemma stage3_form:
  assumes ok: "conf_ok c" and t: "planted_up_to 3 c probe s t"
  shows "plant_block ((probe XOR loaded_probes s) AND probe) (PROBE_UDP_CONNECT c) (plant_udp_connect c reg) t =
          (if bit probe (categories c ! 3) \<and> \<not> bit (loaded_probes s) (categories c ! 3)
           then if registration_fails c reg probe s 3
                then Inl (- failure_codes c ! 3, t)
                else Inr (add_category c (categories c ! 3) t)
           else Inr t)"
proof -
  have c: "consistent c t" using t by (simp add: planted_up_to_def)
  have k: "categories c ! 3 = PROBE_UDP_CONNECT c" by (simp add: categories_def)
  have b: "bit (loaded_probes t) (PROBE_UDP_CONNECT c) = bit (loaded_probes s) (PROBE_UDP_CONNECT c)"
    using planted_up_to_bit [OF ok t, of 3] by (simp add: categories_def)
  show ?thesis
    unfolding k using b block_udp_connect_closed_form [OF ok c, of "((probe XOR loaded_probes s) AND probe)" reg]
    by (simp add: bit_new_probes registration_fails_def failure_codes_def)
qed

lemma stage4_form:
  assumes ok: "conf_ok c" and t: "planted_up_to 4 c probe s t"
  shows "plant_block ((probe XOR loaded_probes s) AND probe) (PROBE_UDP_BIND c) (plant_udp_bind c reg) t =
          (if bit probe (categories c ! 4) \<and> \<not> bit (loaded_probes s) (categories c ! 4)
           then if registration_fails c reg probe s 4
                then Inl (- failure_codes c ! 4, t)
                else Inr (add_category c (categories c ! 4) t)
           else Inr t)"
proof -
  have c: "consistent c t" using t by (simp add: planted_up_to_def)
  have k: "categories c ! 4 = PROBE_UDP_BIND c" by (simp add: categories_def)
  have b: "bit (loaded_probes t) (PROBE_UDP_BIND c) = bit (loaded_probes s) (PROBE_UDP_BIND c)"
    using planted_up_to_bit [OF ok t, of 4] by (simp add: categories_def)
  show ?thesis
    unfolding k using b block_udp_bind_closed_form [OF ok c, of "((probe XOR loaded_probes s) AND probe)" reg]
    by (simp add: bit_new_probes registration_fails_def failure_codes_def)
qed

lemma stage5_form:
  assumes ok: "conf_ok c" and t: "planted_up_to 5 c probe s t"
  shows "plant_close_block c reg ((probe XOR loaded_probes s) AND probe) (PROBE_UDP_CLOSE c) (PROBE_TCP_CLOSE c) t =
          (if bit probe (categories c ! 5) \<and> \<not> bit (loaded_probes s) (categories c ! 5)
           then if registration_fails c reg probe s 5
                then Inl (- failure_codes c ! 5, t)
                else Inr (add_category c (categories c ! 5) t)
           else Inr t)"
proof -
  have c: "consistent c t" using t by (simp add: planted_up_to_def)
  have k: "categories c ! 5 = PROBE_UDP_CLOSE c" by (simp add: categories_def)
  have b: "bit (loaded_probes t) (PROBE_UDP_CLOSE c) = bit (loaded_probes s) (PROBE_UDP_CLOSE c)"
    using planted_up_to_bit [OF ok t, of 5] by (simp add: categories_def)
  have "bit (loaded_probes t) (categories c ! 2) =
          (bit (loaded_probes s) (categories c ! 2) \<or> bit probe (categories c ! 2))"
    using planted_up_to_bit [OF ok t, of 2] by simp
  then have sib: "bit (loaded_probes t) (PROBE_TCP_CLOSE c) =
          (bit (loaded_probes s) (PROBE_TCP_CLOSE c) \<or> bit probe (PROBE_TCP_CLOSE c))"
    by (simp add: categories_def)
  show ?thesis
    unfolding k using b block_close_closed_form [OF ok c, of "PROBE_UDP_CLOSE c" "PROBE_TCP_CLOSE c" reg "((probe XOR loaded_probes s) AND probe)"] sib
    by (simp add: bit_new_probes registration_fails_def failure_codes_def)
qed

lemma plant_probe_stages:
  assumes ok: "conf_ok c" and s: "consistent c s"
  shows "stage_outcome c reg probe s 6
    (then_block (then_block (then_block (then_block (then_block
            (plant_block ((probe XOR loaded_probes s) AND probe) (PROBE_TCP_CONNECT c) (plant_tcp_connect c reg) s)
            (plant_block ((probe XOR loaded_probes s) AND probe) (PROBE_TCP_ACCEPT c) (plant_tcp_accept c reg)))
            (plant_close_block c reg ((probe XOR loaded_probes s) AND probe) (PROBE_TCP_CLOSE c) (PROBE_UDP_CLOSE c)))
            (plant_block ((probe XOR loaded_probes s) AND probe) (PROBE_UDP_CONNECT c) (plant_udp_connect c reg)))
            (plant_block ((probe XOR loaded_probes s) AND probe) (PROBE_UDP_BIND c) (plant_udp_bind c reg)))
            (plant_close_block c reg ((probe XOR loaded_probes s) AND probe) (PROBE_UDP_CLOSE c) (PROBE_TCP_CLOSE c)))"
proof -
  have nz: "\<And>k. k < 6 \<Longrightarrow> failure_codes c ! k \<noteq> 0"
    using ok by (auto simp: conf_ok_def failure_codes_def nth_Cons' )
  have "stage_outcome c reg probe s 0 (Inr s)"
    using s by (simp add: stage_outcome_def planted_up_to_def)
  from stage_step [OF ok _ this stage0_form [OF ok] nz]
  have "stage_outcome c reg probe s (Suc 0)
          (plant_block ((probe XOR loaded_probes s) AND probe) (PROBE_TCP_CONNECT c) (plant_tcp_connect c reg) s)"
    by (simp add: then_block_def)
  then have "stage_outcome c reg probe s 1
          (plant_block ((probe XOR loaded_probes s) AND probe) (PROBE_TCP_CONNECT c) (plant_tcp_connect c reg) s)"
    by simp
  from stage_step [OF ok _ this stage1_form [OF ok] nz]
  have "stage_outcome c reg probe s 2 (then_block
          (plant_block ((probe XOR loaded_probes s) AND probe) (PROBE_TCP_CONNECT c) (plant_tcp_connect c reg) s)
          (plant_block ((probe XOR loaded_probes s) AND probe) (PROBE_TCP_ACCEPT c) (plant_tcp_accept c reg)))"
    by (simp add: numeral_2_eq_2)
  from stage_step [OF ok _ this stage2_form [OF ok] nz]
  have "stage_outcome c reg probe s 3 (then_block (then_block
          (plant_block ((probe XOR loaded_probes s) AND probe) (PROBE_TCP_CONNECT c) (plant_tcp_connect c reg) s)
          (plant_block ((probe XOR loaded_probes s) AND probe) (PROBE_TCP_ACCEPT c) (plant_tcp_accept c reg)))
          (plant_close_block c reg ((probe XOR loaded_probes s) AND probe) (PROBE_TCP_CLOSE c) (PROBE_UDP_CLOSE c)))"
    by (simp add: numeral_3_eq_3 numeral_2_eq_2)
  from stage_step [OF ok _ this stage3_form [OF ok] nz]
  have "stage_outcome c reg probe s 4 (then_block (then_block (then_block
          (plant_block ((probe XOR loaded_probes s) AND probe) (PROBE_TCP_CONNECT c) (plant_tcp_connect c reg) s)
          (plant_block ((probe XOR loaded_probes s) AND probe) (PROBE_TCP_ACCEPT c) (plant_tcp_accept c reg)))
          (plant_close_block c reg ((probe XOR loaded_probes s) AND probe) (PROBE_TCP_CLOSE c) (PROBE_UDP_CLOSE c)))
          (plant_block ((probe XOR loaded_probes s) AND probe) (PROBE_UDP_CONNECT c) (plant_udp_connect c reg)))"
    by (simp add: eval_nat_numeral)
  from stage_step [OF ok _ this stage4_form [OF ok] nz]
  have "stage_outcome c reg probe s 5 (then_block (then_block (then_block (then_block
          (plant_block ((probe XOR loaded_probes s) AND probe) (PROBE_TCP_CONNECT c) (plant_tcp_connect c reg) s)
          (plant_block ((probe XOR loaded_probes s) AND probe) (PROBE_TCP_ACCEPT c) (plant_tcp_accept c reg)))
          (plant_close_block c reg ((probe XOR loaded_probes s) AND probe) (PROBE_TCP_CLOSE c) (PROBE_UDP_CLOSE c)))
          (plant_block ((probe XOR loaded_probes s) AND probe) (PROBE_UDP_CONNECT c) (plant_udp_connect c reg)))
          (plant_block ((probe XOR loaded_probes s) AND probe) (PROBE_UDP_BIND c) (plant_udp_bind c reg)))"
    by (simp add: eval_nat_numeral)
  from stage_step [OF ok _ this stage5_form [OF ok] nz]
  show ?thesis
    by (simp add: eval_nat_numeral)
qed

lemma plant_probe_outcome:
  assumes ok: "conf_ok c" and s: "consistent c s"
    and r: "plant_probe c reg probe s = (err, s')"
  shows "\<exists>k\<le>6. (\<forall>j<k. \<not> planting_fails c reg probe s j)
       \<and> (if k < 6 then planting_fails c reg probe s k \<and> err = - failure_codes c ! k \<and> err \<noteq> 0
          else err = 0)
       \<and> planted_up_to k c probe s s'"
proof -
  let ?r = "then_block (then_block (then_block (then_block (then_block
            (plant_block ((probe XOR loaded_probes s) AND probe) (PROBE_TCP_CONNECT c) (plant_tcp_connect c reg) s)
            (plant_block ((probe XOR loaded_probes s) AND probe) (PROBE_TCP_ACCEPT c) (plant_tcp_accept c reg)))
            (plant_close_block c reg ((probe XOR loaded_probes s) AND probe) (PROBE_TCP_CLOSE c) (PROBE_UDP_CLOSE c)))
            (plant_block ((probe XOR loaded_probes s) AND probe) (PROBE_UDP_CONNECT c) (plant_udp_connect c reg)))
            (plant_block ((probe XOR loaded_probes s) AND probe) (PROBE_UDP_BIND c) (plant_udp_bind c reg)))
            (plant_close_block c reg ((probe XOR loaded_probes s) AND probe) (PROBE_UDP_CLOSE c) (PROBE_TCP_CLOSE c))"
  have st: "stage_outcome c reg probe s 6 ?r"
    using ok s by (rule plant_probe_stages)
  have pp: "(err, s') = (case ?r of Inl (e, t) \<Rightarrow> (e, t) | Inr t \<Rightarrow> (0, t))"
    using r by (simp add: plant_probe_def Let_def)
  show ?thesis
  proof (cases ?r)
    case (Inl a)
    obtain e t where a: "a = (e, t)" by (cases a)
    with Inl pp have "err = e" "s' = t" by simp_all
    moreover from st Inl a obtain m where "m < 6" "planted_up_to m c probe s t"
      "\<forall>j<m. \<not> planting_fails c reg probe s j" "planting_fails c reg probe s m"
      "e = - failure_codes c ! m" "e \<noteq> 0"
      by (auto simp: stage_outcome_def)
    ultimately show ?thesis
      by (intro exI [of _ m]) simp
  next
    case (Inr t)
    with pp have "err = 0" "s' = t" by simp_all
    moreover from st Inr have "planted_up_to 6 c probe s t"
      "\<forall>j<6. \<not> planting_fails c reg probe s j"
      by (simp_all add: stage_outcome_def)
    ultimately show ?thesis
      by (intro exI [of _ 6]) simp
  qed
qed

text \<open>
  Claim C1, as amended.  \<open>plant_probe\<close> runs its six blocks in order and stops at the
  first block \<open>k\<close> whose planting fails, returning that block's negated failure code;
  \<open>k = 6\<close> is the run without failure.  The failing block undoes only its own
  half-planted pair, so the registry stays consistent with the bitmask; the requested
  categories handled before block \<open>k\<close> stay planted and stay set in
  \<open>loaded_probes\<close>; nothing that was planted or active before the call is removed.
\<close>

theorem plant_probe_keeps_earlier_categories:
  assumes "conf_ok c" and "consistent c s" and "plant_probe c reg probe s = (err, s')"
  shows "\<exists>k\<le>6. (\<forall>j<k. \<not> planting_fails c reg probe s j)
       \<and> (if k < 6 then planting_fails c reg probe s k \<and> err = - failure_codes c ! k \<and> err \<noteq> 0
          else err = 0)
       \<and> consistent c s' \<and> planted s \<subseteq> planted s'
       \<and> (\<forall>q. bit (loaded_probes s') q =
               (bit (loaded_probes s) q \<or> (bit probe q \<and> q \<in> set (take k (categories c)))))"
  using plant_probe_outcome [OF assms] by (simp add: planted_up_to_def)

lemma accept_fails_run:
  "plant_probe probes_0_5 accept_fails 3 no_probes
     = (- 2, \<lparr>loaded_probes = 1, planted = {stream_connect_kretprobe, stream_connect_jprobe}\<rparr>)"
  by (simp add: plant_probe_def plant_block_def plant_close_block_def then_block_def
      probes_0_5_def no_probes_def shl1_def plant_tcp_connect_def plant_tcp_accept_def
      plant_jprobe_def plant_kretprobe_def Let_def accept_fails_def)

lemma conf_ok_probes_0_5: "conf_ok probes_0_5"
  by (simp add: conf_ok_def probes_0_5_def)

lemma consistent_no_probes: "consistent c no_probes"
  by (simp add: consistent_def no_probes_def)

text \<open>
  The theorem at a concrete request: \<open>TCP_CONNECT | TCP_ACCEPT\<close> on a fresh module when
  the accept hook cannot be registered.
\<close>

theorem plant_probe_keeps_earlier_categories_witness:
  "conf_ok probes_0_5 \<and> consistent probes_0_5 no_probes
   \<and> plant_probe probes_0_5 accept_fails 3 no_probes
       = (- 2, \<lparr>loaded_probes = 1, planted = {stream_connect_kretprobe, stream_connect_jprobe}\<rparr>)
   \<and> (\<exists>k\<le>6. (\<forall>j<k. \<not> planting_fails probes_0_5 accept_fails 3 no_probes j)
       \<and> (if k < 6 then planting_fails probes_0_5 accept_fails 3 no_probes k
                      \<and> - 2 = - failure_codes probes_0_5 ! k \<and> (- 2 :: int) \<noteq> 0
          else (- 2 :: int) = 0)
       \<and> consistent probes_0_5
            \<lparr>loaded_probes = 1, planted = {stream_connect_kretprobe, stream_connect_jprobe}\<rparr>
       \<and> planted no_probes \<subseteq> {stream_connect_kretprobe, stream_connect_jprobe}
       \<and> (\<forall>q. bit (1 :: u32) q =
               (bit (loaded_probes no_probes) q
                \<or> (bit (3 :: u32) q \<and> q \<in> set (take k (categories probes_0_5))))))"
  using plant_probe_keeps_earlier_categories
    [OF conf_ok_probes_0_5 consistent_no_probes accept_fails_run]
    conf_ok_probes_0_5 consistent_no_probes [of probes_0_5] accept_fails_run
  by simp

text \<open>
  Claim C1 as stated fails there: the call returns an error, yet the bitmask has changed
  and the connect hook planted by the same call is still planted.
\<close>

theorem plant_probe_no_rollback_counterexample:
  "fst (plant_probe probes_0_5 accept_fails 3 no_probes) \<noteq> 0
   \<and> loaded_probes (snd (plant_probe probes_0_5 accept_fails 3 no_probes))
       \<noteq> loaded_probes no_probes
   \<and> stream_connect_jprobe \<notin> planted no_probes
   \<and> stream_connect_jprobe \<in> planted (snd (plant_probe probes_0_5 accept_fails 3 no_probes))"
  by (simp add: accept_fails_run) (simp add: no_probes_def)

lemma and_two_shl1_iff:
  "p < 32 \<Longrightarrow> q < 32 \<Longrightarrow> (w AND (shl1 p OR shl1 q) \<noteq> 0) = (bit w p \<or> bit w q)"
proof -
  assume "p < 32" "q < 32"
  then have "(w AND (shl1 p OR shl1 q) = 0) = (w AND shl1 p = 0 \<and> w AND shl1 q = 0)"
    by (simp add: bit.conj_disj_distrib or_eq_0_iff)
  then show ?thesis
    using \<open>p < 32\<close> \<open>q < 32\<close> and_shl1_iff [of p w] and_shl1_iff [of q w] by auto
qed

lemma xor_and_eq: "(w :: u32) XOR (w AND p) = w AND NOT p"
  by (rule bit_eqI) (auto simp: bit_simps)

lemma bit_and_not_u32: "bit ((w :: u32) AND NOT p) q = (bit w q \<and> \<not> bit p q)"
  by (auto simp: bit_and_iff bit_not_iff dest: bit_imp_le_length)

lemma unplant_steps_loaded:
  "loaded_probes (if b then unplant_tcp_connect s else s) = loaded_probes s"
  "loaded_probes (if b then unplant_tcp_accept s else s) = loaded_probes s"
  "loaded_probes (if b then (if b' then unplant_close s else s) else s) = loaded_probes s"
  "loaded_probes (if b then unplant_udp_connect s else s) = loaded_probes s"
  "loaded_probes (if b then unplant_udp_bind s else s) = loaded_probes s"
  by (simp_all add: unplant_tcp_connect_def unplant_udp_connect_def
      unplant_tcp_accept_def unplant_close_def unplant_udp_bind_def unplant_jprobe_def
      unplant_kretprobe_def)

lemma unplant_steps_planted:
  "(h \<in> planted (if b then unplant_tcp_connect s else s)) =
     (h \<in> planted s \<and> \<not> (b \<and> (h = stream_connect_jprobe \<or> h = stream_connect_kretprobe)))"
  "(h \<in> planted (if b then unplant_tcp_accept s else s)) =
     (h \<in> planted s \<and> \<not> (b \<and> h = accept_kretprobe))"
  "(h \<in> planted (if b then (if b' then unplant_close s else s) else s)) =
     (h \<in> planted s \<and> \<not> (b \<and> b' \<and> h = close_jprobe))"
  "(h \<in> planted (if b then unplant_udp_connect s else s)) =
     (h \<in> planted s \<and> \<not> (b \<and> (h = dgram_connect_jprobe \<or> h = dgram_connect_kretprobe)))"
  "(h \<in> planted (if b then unplant_udp_bind s else s)) =
     (h \<in> planted s \<and> \<not> (b \<and> (h = bind_jprobe \<or> h = bind_kretprobe)))"
  by (auto simp: unplant_tcp_connect_def unplant_udp_connect_def
      unplant_tcp_accept_def unplant_close_def unplant_udp_bind_def unplant_jprobe_def
      unplant_kretprobe_def)

lemma unplant_loaded_probes:
  "loaded_probes (unplant_probe_locked c probe s) = loaded_probes s AND NOT probe"
  by (simp add: unplant_probe_locked_def Let_def unplant_steps_loaded xor_and_eq
      split del: if_split)

lemma unplant_planted_raw:
  "(h \<in> planted (unplant_probe_locked c probe s)) =
   (h \<in> planted s
    \<and> \<not> ((loaded_probes s AND probe) AND shl1 (PROBE_TCP_CONNECT c) \<noteq> 0
          \<and> (h = stream_connect_jprobe \<or> h = stream_connect_kretprobe))
    \<and> \<not> ((loaded_probes s AND probe) AND shl1 (PROBE_TCP_ACCEPT c) \<noteq> 0 \<and> h = accept_kretprobe)
    \<and> \<not> ((loaded_probes s AND probe) AND (shl1 (PROBE_TCP_CLOSE c) OR shl1 (PROBE_UDP_CLOSE c)) \<noteq> 0
          \<and> (loaded_probes s AND NOT probe) AND (shl1 (PROBE_TCP_CLOSE c) OR shl1 (PROBE_UDP_CLOSE c)) = 0
          \<and> h = close_jprobe)
    \<and> \<not> ((loaded_probes s AND probe) AND shl1 (PROBE_UDP_CONNECT c) \<noteq> 0
          \<and> (h = dgram_connect_jprobe \<or> h = dgram_connect_kretprobe))
    \<and> \<not> ((loaded_probes s AND probe) AND shl1 (PROBE_UDP_BIND c) \<noteq> 0
          \<and> (h = bind_jprobe \<or> h = bind_kretprobe)))"
  by (simp add: unplant_probe_locked_def Let_def unplant_steps_loaded unplant_steps_planted
      xor_and_eq split del: if_split)

lemma unplant_planted:
  assumes ok: "conf_ok c"
  shows "(h \<in> planted (unplant_probe_locked c probe s)) =
         (h \<in> planted s \<and>
          \<not> ((\<exists>q \<in> set (needed_by c h). bit (loaded_probes s AND probe) q)
              \<and> \<not> (\<exists>q \<in> set (needed_by c h). bit (loaded_probes s AND NOT probe) q)))"
proof -
  have lt: "PROBE_TCP_CONNECT c < 32" "PROBE_TCP_ACCEPT c < 32" "PROBE_TCP_CLOSE c < 32"
    "PROBE_UDP_CONNECT c < 32" "PROBE_UDP_BIND c < 32" "PROBE_UDP_CLOSE c < 32"
    using ok by (simp_all add: conf_ok_def)
  have one: "\<And>w p. p < 32 \<Longrightarrow> (w AND shl1 p = 0) = (\<not> bit (w :: u32) p)"
    using and_shl1_iff by blast
  have two: "\<And>w p q. p < 32 \<Longrightarrow> q < 32 \<Longrightarrow>
      (w AND (shl1 p OR shl1 q) = 0) = (\<not> bit (w :: u32) p \<and> \<not> bit w q)"
    using and_two_shl1_iff by blast
  have imp: "\<And>p. bit (loaded_probes s AND probe) p \<Longrightarrow> \<not> bit (loaded_probes s AND NOT probe) p"
    by (simp add: bit_and_not_u32) (simp add: bit_and_iff)
  show ?thesis
    unfolding unplant_planted_raw
    by (cases h) (use imp in \<open>auto simp: one two lt\<close>)
qed

lemma unplant_consistent:
  assumes ok: "conf_ok c" and s: "consistent c s"
  shows "consistent c (unplant_probe_locked c probe s)"
  unfolding consistent_def
proof
  fix h
  have "(h \<in> planted s) = (\<exists>q \<in> set (needed_by c h). bit (loaded_probes s) q)"
    using s by (simp add: consistent_def)
  then show "(h \<in> planted (unplant_probe_locked c probe s)) =
        (\<exists>q \<in> set (needed_by c h). bit (loaded_probes (unplant_probe_locked c probe s)) q)"
    unfolding unplant_planted [OF ok] unplant_loaded_probes bit_and_not_u32
    by (auto simp: bit_and_iff)
qed

lemma consistent_close:
  "consistent c s \<Longrightarrow>
   (close_jprobe \<in> planted s) =
     (bit (loaded_probes s) (PROBE_TCP_CLOSE c) \<or> bit (loaded_probes s) (PROBE_UDP_CLOSE c))"
  by (simp add: consistent_def)

lemma request_both_close:
  assumes ok: "conf_ok c" and s: "consistent c s" and reg: "0 \<le> reg close_jprobe"
  shows "fst (plant_probe c reg (shl1 (PROBE_TCP_CLOSE c) OR shl1 (PROBE_UDP_CLOSE c)) s) = 0"
    and "consistent c (snd (plant_probe c reg (shl1 (PROBE_TCP_CLOSE c) OR shl1 (PROBE_UDP_CLOSE c)) s))"
    and "bit (loaded_probes (snd (plant_probe c reg
            (shl1 (PROBE_TCP_CLOSE c) OR shl1 (PROBE_UDP_CLOSE c)) s))) (PROBE_TCP_CLOSE c)"
    and "bit (loaded_probes (snd (plant_probe c reg
            (shl1 (PROBE_TCP_CLOSE c) OR shl1 (PROBE_UDP_CLOSE c)) s))) (PROBE_UDP_CLOSE c)"
proof -
  let ?probe = "shl1 (PROBE_TCP_CLOSE c) OR shl1 (PROBE_UDP_CLOSE c)"
  obtain err s' where r: "plant_probe c reg ?probe s = (err, s')"
    by (cases "plant_probe c reg ?probe s")
  have lt: "PROBE_TCP_CLOSE c < 32" "PROBE_UDP_CLOSE c < 32"
    using ok by (simp_all add: conf_ok_def)
  have d: "distinct [PROBE_TCP_CONNECT c, PROBE_TCP_ACCEPT c, PROBE_TCP_CLOSE c,
               PROBE_UDP_CONNECT c, PROBE_UDP_BIND c, PROBE_UDP_CLOSE c]"
    using ok by (simp add: conf_ok_def)
  have bp: "\<And>q. bit ?probe q = (q = PROBE_TCP_CLOSE c \<or> q = PROBE_UDP_CLOSE c)"
    using lt by (auto simp: shl1_def bit_simps)
  have nofail: "\<not> planting_fails c reg ?probe s k" if "k < 6" for k
  proof -
    from that consider "k = 0" | "k = 1" | "k = 2" | "k = 3" | "k = 4" | "k = 5" by linarith
    then show ?thesis
      using reg d by cases (auto simp: planting_fails_def registration_fails_def bp categories_def)
  qed
  from plant_probe_outcome [OF ok s r] obtain k where k: "k \<le> 6"
    "if k < 6 then planting_fails c reg ?probe s k \<and> err = - failure_codes c ! k \<and> err \<noteq> 0
     else err = 0"
    "planted_up_to k c ?probe s s'"
    by blast
  have k6: "k = 6" using k(1,2) nofail by (cases "k < 6") auto
  then have "err = 0" using k(2) by simp
  moreover have "consistent c s'" using k(3) by (simp add: planted_up_to_def)
  moreover have "bit (loaded_probes s') (PROBE_TCP_CLOSE c)" "bit (loaded_probes s') (PROBE_UDP_CLOSE c)"
    using k(3) k6 by (simp_all add: planted_up_to_def bp categories_def)
  ultimately show "fst (plant_probe c reg ?probe s) = 0"
    and "consistent c (snd (plant_probe c reg ?probe s))"
    and "bit (loaded_probes (snd (plant_probe c reg ?probe s))) (PROBE_TCP_CLOSE c)"
    and "bit (loaded_probes (snd (plant_probe c reg ?probe s))) (PROBE_UDP_CLOSE c)"
    using r by simp_all
qed

text \<open>
  Claim C6.  \<open>unplant_probe\<close> clears the requested bits, keeps the registry consistent with
  the remaining active set, and so leaves the shared close hook planted exactly when one
  of the two close categories is still active.  In particular, after a successful request
  of both close categories, releasing \<open>TCP_CLOSE\<close> leaves the close hook planted and the
  following release of \<open>UDP_CLOSE\<close> unplants it.
\<close>

theorem unplant_probe_shared_close_hook:
  assumes "conf_ok c" and "consistent c s"
  shows "loaded_probes (unplant_probe c probe s) = loaded_probes s AND NOT probe
    \<and> consistent c (unplant_probe c probe s)
    \<and> (close_jprobe \<in> planted (unplant_probe c probe s)) =
        (bit (loaded_probes s AND NOT probe) (PROBE_TCP_CLOSE c)
         \<or> bit (loaded_probes s AND NOT probe) (PROBE_UDP_CLOSE c))
    \<and> (0 \<le> reg close_jprobe \<longrightarrow>
        (let r = plant_probe c reg (shl1 (PROBE_TCP_CLOSE c) OR shl1 (PROBE_UDP_CLOSE c)) s;
             s1 = snd r;
             s2 = unplant_probe c (shl1 (PROBE_TCP_CLOSE c)) s1;
             s3 = unplant_probe c (shl1 (PROBE_UDP_CLOSE c)) s2
         in fst r = 0 \<and> close_jprobe \<in> planted s1 \<and> close_jprobe \<in> planted s2
            \<and> close_jprobe \<notin> planted s3))"
proof -
  note ok = assms(1)
  have lt: "PROBE_TCP_CLOSE c < 32" "PROBE_UDP_CLOSE c < 32"
    and ne: "PROBE_TCP_CLOSE c \<noteq> PROBE_UDP_CLOSE c"
    using ok by (simp_all add: conf_ok_def)
  have general: "loaded_probes (unplant_probe c p t) = loaded_probes t AND NOT p
      \<and> consistent c (unplant_probe c p t)
      \<and> (close_jprobe \<in> planted (unplant_probe c p t)) =
        (bit (loaded_probes t AND NOT p) (PROBE_TCP_CLOSE c)
         \<or> bit (loaded_probes t AND NOT p) (PROBE_UDP_CLOSE c))"
    if "consistent c t" for p t
    using consistent_close [OF unplant_consistent [OF ok that, of p]]
    by (simp add: unplant_probe_def unplant_loaded_probes unplant_consistent [OF ok that])
  have scenario: "(let r = plant_probe c reg (shl1 (PROBE_TCP_CLOSE c) OR shl1 (PROBE_UDP_CLOSE c)) s;
             s1 = snd r;
             s2 = unplant_probe c (shl1 (PROBE_TCP_CLOSE c)) s1;
             s3 = unplant_probe c (shl1 (PROBE_UDP_CLOSE c)) s2
         in fst r = 0 \<and> close_jprobe \<in> planted s1 \<and> close_jprobe \<in> planted s2
            \<and> close_jprobe \<notin> planted s3)" if reg: "0 \<le> reg close_jprobe"
  proof -
    let ?s1 = "snd (plant_probe c reg (shl1 (PROBE_TCP_CLOSE c) OR shl1 (PROBE_UDP_CLOSE c)) s)"
    let ?s2 = "unplant_probe c (shl1 (PROBE_TCP_CLOSE c)) ?s1"
    let ?s3 = "unplant_probe c (shl1 (PROBE_UDP_CLOSE c)) ?s2"
    note rb = request_both_close [of c s reg, OF ok assms(2) reg]
    have bs: "\<And>p q. p < 32 \<Longrightarrow> bit (shl1 p) q = (q = p)"
      by (auto simp: shl1_def bit_simps)
    have c1: "close_jprobe \<in> planted ?s1"
      using consistent_close [OF rb(2)] rb(3) by simp
    have g2: "loaded_probes ?s2 = loaded_probes ?s1 AND NOT (shl1 (PROBE_TCP_CLOSE c))"
      "consistent c ?s2"
      using general [OF rb(2), of "shl1 (PROBE_TCP_CLOSE c)"] by simp_all
    have c2: "close_jprobe \<in> planted ?s2"
      using consistent_close [OF g2(2)] rb(4) lt ne by (simp add: g2(1) bit_and_not_u32 bs)
    have g3: "loaded_probes ?s3 = loaded_probes ?s2 AND NOT (shl1 (PROBE_UDP_CLOSE c))"
      "consistent c ?s3"
      using general [OF g2(2), of "shl1 (PROBE_UDP_CLOSE c)"] by simp_all
    have c3: "close_jprobe \<notin> planted ?s3"
      using consistent_close [OF g3(2)] lt ne by (simp add: g3(1) g2(1) bit_and_not_u32 bs)
    show ?thesis
      using rb(1) c1 c2 c3 by (simp add: Let_def)
  qed
  show ?thesis
    using general [OF assms(2), of probe] scenario by blast
qed

lemma all_succeed_close: "0 \<le> all_succeed close_jprobe"
  by (simp add: all_succeed_def)

theorem unplant_probe_shared_close_hook_witness:
  "conf_ok probes_0_5 \<and> consistent probes_0_5 no_probes \<and> 0 \<le> all_succeed close_jprobe
   \<and> loaded_probes (unplant_probe probes_0_5 4 no_probes) = loaded_probes no_probes AND NOT 4
   \<and> (let r = plant_probe probes_0_5 all_succeed 36 no_probes;
           s1 = snd r;
           s2 = unplant_probe probes_0_5 4 s1;
           s3 = unplant_probe probes_0_5 32 s2
       in fst r = 0 \<and> close_jprobe \<in> planted s1 \<and> close_jprobe \<in> planted s2
          \<and> close_jprobe \<notin> planted s3)"
proof -
  have m: "shl1 (PROBE_TCP_CLOSE probes_0_5) = 4" "shl1 (PROBE_UDP_CLOSE probes_0_5) = 32"
    "(4 :: u32) OR 32 = 36"
    by (simp_all add: probes_0_5_def shl1_def)
  show ?thesis
    using unplant_probe_shared_close_hook
      [OF conf_ok_probes_0_5 consistent_no_probes, of 4 all_succeed]
      conf_ok_probes_0_5 consistent_no_probes [of probes_0_5] all_succeed_close
    unfolding m by blast
qed

section \<open>Proofs: secure log\<close>

subsection \<open>Seek\<close>

text \<open>
  Claim C7 as stated fails: after four records a session that has read them all seeks to
  the start with offset 5; the call returns 0 and the cursor stays where it was, not at
  the oldest record.
\<close>

lemma four_stored_cursors:
  "log_first_seq four_stored = 0" "log_first_idx four_stored = 0"
  "log_next_seq four_stored = 4" "log_next_idx four_stored = 412"
  by code_simp+

theorem llseek_nonzero_offset_counterexample:
  "secure_log_llseek four_stored (Some caught_up) 5 SEEK_SET = (0, Some caught_up)
   \<and> (log_curr_seq caught_up, log_curr_idx caught_up)
       \<noteq> (log_first_seq four_stored, log_first_idx four_stored)"
  by (simp add: secure_log_llseek_def four_stored_cursors) (simp add: caught_up_def)

text \<open>
  Claim C7, as amended.  For a session that exists and a \<open>whence\<close> among the three,
  \<open>secure_log_llseek\<close> returns 0; the cursor moves (to the oldest record for
  \<open>SEEK_SET\<close>, to the write position for \<open>SEEK_END\<close>) only when the offset is 0, and a
  non-zero offset leaves it unchanged whatever the \<open>whence\<close>.
\<close>

theorem llseek_moves_cursor_only_for_zero_offset:
  assumes "whence \<in> {SEEK_SET, SEEK_CUR, SEEK_END}"
  shows "fst (secure_log_llseek s (Some d) offset whence) = 0
    \<and> snd (secure_log_llseek s (Some d) offset whence) =
        Some (if offset \<noteq> 0 \<or> whence = SEEK_CUR then d
              else if whence = SEEK_SET
              then d\<lparr>log_curr_seq := log_first_seq s, log_curr_idx := log_first_idx s\<rparr>
              else d\<lparr>log_curr_seq := log_next_seq s, log_curr_idx := log_next_idx s\<rparr>)"
  using assms by (auto simp: secure_log_llseek_def SEEK_SET_def SEEK_CUR_def SEEK_END_def)

theorem llseek_moves_cursor_only_for_zero_offset_witness:
  "SEEK_SET \<in> {SEEK_SET, SEEK_CUR, SEEK_END}
   \<and> fst (secure_log_llseek four_stored (Some caught_up) 0 SEEK_SET) = 0
   \<and> snd (secure_log_llseek four_stored (Some caught_up) 0 SEEK_SET) =
       Some (caught_up\<lparr>log_curr_seq := 0, log_curr_idx := 0\<rparr>)"
  using llseek_moves_cursor_only_for_zero_offset [of SEEK_SET four_stored caught_up 0]
  by (simp add: four_stored_cursors SEEK_SET_def SEEK_CUR_def)

subsection \<open>Address slots\<close>

lemma commit_record_cell:
  "log_buf (commit_record e s) (unat (log_next_idx s)) = Entry e"
  by (simp add: commit_record_def overwrite_def)

text \<open>
  Claim C10.  The record \<open>store_netlog_record\<close> writes at the place
  \<open>find_new_record_place\<close> chose has an all-zero 16-byte source slot when the source
  pointer is \<open>NULL\<close>, and an all-zero destination slot when the destination pointer is
  \<open>NULL\<close>, for every address family.
\<close>

theorem null_address_slot_zeroed:
  "log_buf (store_netlog_record L env p act proto fam None sport dst_ip dport s)
     (unat (log_next_idx (find_new_record_place L (junk_len env)
        (len (header (netlog_record L env p act proto fam None sport dst_ip dport))) s)))
    = Entry (Netlog (netlog_record L env p act proto fam None sport dst_ip dport))
   \<and> src (netlog_record L env p act proto fam None sport dst_ip dport) = replicate 16 0
   \<and> log_buf (store_netlog_record L env p act proto fam src_ip sport None dport s)
     (unat (log_next_idx (find_new_record_place L (junk_len env)
        (len (header (netlog_record L env p act proto fam src_ip sport None dport))) s)))
    = Entry (Netlog (netlog_record L env p act proto fam src_ip sport None dport))
   \<and> dst (netlog_record L env p act proto fam src_ip sport None dport) = replicate 16 0"
  by (simp add: store_netlog_record_def Let_def commit_record_cell netlog_record_def)

subsection \<open>Overflowed readers\<close>

lemma read_session_not_epipe:
  assumes "lock_err env = 0" "\<not> log_curr_seq d < log_first_seq s"
  shows "read_session L C env count s d \<noteq> Some (Ret (- EPIPE) x, d2)"
proof -
  have "uint ln \<noteq> - EPIPE" for ln :: size_t
  proof -
    have "0 \<le> uint ln" by simp
    then show ?thesis unfolding EPIPE_def by linarith
  qed
  then show ?thesis
    using assms
    by (auto simp: read_session_def deliver_def Let_def EPIPE_def EAGAIN_def EINVAL_def EFAULT_def
        split: option.splits prod.splits if_splits)
qed

text \<open>
  When the cursor sequence is below the oldest retained sequence (and the session lock
  is obtained), \<open>read\<close> snaps the cursor to the oldest retained cursor and returns
  \<open>-EPIPE\<close> without data; the next read of that session on the same buffer does not
  return \<open>-EPIPE\<close> again.
\<close>

lemma overflowed_read_snaps_and_signals_once:
  assumes "log_curr_seq d < log_first_seq s" and "log_first_seq s \<le> log_next_seq s"
    and "lock_err env = 0" and "lock_err env' = 0"
  shows "read_session L C env count s d =
           Some (Ret (- EPIPE) [],
                 d\<lparr>log_curr_seq := log_first_seq s, log_curr_idx := log_first_idx s\<rparr>)"
    and "read_session L C env' count' s
          (d\<lparr>log_curr_seq := log_first_seq s, log_curr_idx := log_first_idx s\<rparr>)
        \<noteq> Some (Ret (- EPIPE) x, d2)"
proof -
  have ne: "log_curr_seq d \<noteq> log_next_seq s"
    using assms(1,2) by auto
  show "read_session L C env count s d =
           Some (Ret (- EPIPE) [],
                 d\<lparr>log_curr_seq := log_first_seq s, log_curr_idx := log_first_idx s\<rparr>)"
    using assms(1,3) ne by (simp add: read_session_def)
  show "read_session L C env' count' s
          (d\<lparr>log_curr_seq := log_first_seq s, log_curr_idx := log_first_idx s\<rparr>)
        \<noteq> Some (Ret (- EPIPE) x, d2)"
    by (rule read_session_not_epipe) (simp_all add: assms(4))
qed

lemma six_stored_cursors:
  "log_first_seq six_stored = 3" "log_first_idx six_stored = 309"
  "log_next_seq six_stored = 6" "log_next_idx six_stored = 206"
  by code_simp+

text \<open>
  Claim C5 at a concrete history.  Six records have been stored in the 512-byte arena;
  three are evicted, the oldest retained one is \<open>/bin/d\<close> (sequence 3, offset 309),
  \<open>/bin/e\<close> lies at offset 0 behind the wraparound marker and \<open>/bin/f\<close> at offset 103.  A
  session that has never read is overflowed: its first read returns \<open>-EPIPE\<close> without
  data and leaves the cursor at \<open>(3, 309)\<close>, and \<open>-EPIPE\<close> is returned this once only.  The
  reads that follow deliver \<open>/bin/d\<close>, \<open>/bin/e\<close> and \<open>/bin/e\<close> again, and the one after
  them finds nothing to read (\<open>-EAGAIN\<close>): the delivery from the new oldest record
  repeats a record and does not reach \<open>/bin/f\<close>.
\<close>

theorem delivery_after_overflow_repeats_record:
  "log_first_seq six_stored = 3 \<and> log_first_idx six_stored = 309
   \<and> log_next_seq six_stored = 6
   \<and> map_option path (case log_buf six_stored 309 of Entry (Netlog r) \<Rightarrow> Some r | _ \<Rightarrow> None)
     = Some (''/bin/d'' @ [NUL])
   \<and> map_option path (case log_buf six_stored 103 of Entry (Netlog r) \<Rightarrow> Some r | _ \<Rightarrow> None)
     = Some (''/bin/f'' @ [NUL])
   \<and> read_session small plain no_wait 128 six_stored fresh
     = Some (Ret (- EPIPE) [], fresh\<lparr>log_curr_seq := 3, log_curr_idx := 309\<rparr>)
   \<and> reads small plain no_wait 128 six_stored fresh 5
     = Some [Ret (- EPIPE) [],
             Ret 38 (''netlog [    0.000000]: pid /bin/d TCP'' @ [LF]),
             Ret 38 (''netlog [    0.000000]: pid /bin/e TCP'' @ [LF]),
             Ret 38 (''netlog [    0.000000]: pid /bin/e TCP'' @ [LF]),
             Ret (- EAGAIN) []]"
proof -
  have "map_option path
          (case log_buf six_stored 309 of Entry (Netlog r) \<Rightarrow> Some r | _ \<Rightarrow> None)
          = Some (''/bin/d'' @ [NUL])"
    by code_simp
  moreover have "map_option path
          (case log_buf six_stored 103 of Entry (Netlog r) \<Rightarrow> Some r | _ \<Rightarrow> None)
          = Some (''/bin/f'' @ [NUL])"
    by code_simp
  moreover have "read_session small plain no_wait 128 six_stored fresh
     = Some (Ret (- EPIPE) [], fresh\<lparr>log_curr_seq := 3, log_curr_idx := 309\<rparr>)"
    by (simp add: read_session_def six_stored_cursors fresh_def no_wait_def)
  moreover have "reads small plain no_wait 128 six_stored fresh 5
     = Some [Ret (- EPIPE) [],
             Ret 38 (''netlog [    0.000000]: pid /bin/d TCP'' @ [LF]),
             Ret 38 (''netlog [    0.000000]: pid /bin/e TCP'' @ [LF]),
             Ret 38 (''netlog [    0.000000]: pid /bin/e TCP'' @ [LF]),
             Ret (- EAGAIN) []]"
    by code_simp
  ultimately show ?thesis
    by (simp add: six_stored_cursors)
qed

subsection \<open>Stored length and alignment\<close>

text \<open>
  Claim C2 at a concrete call.  With \<open>LOG_ALIGN = 8\<close> and a 96-byte
  \<open>struct netlog_log\<close>, storing a network record for the path \<open>/bin/a\<close> in the empty
  buffer writes \<open>header.len = 103\<close>: the rounded size stays local to
  \<open>find_new_record_place\<close>, the header gets the unrounded \<open>record_size\<close>.
\<close>

theorem stored_len_not_aligned:
  "(case log_buf (connect_by ''/bin/a'' 1 boot) 0 of
      Entry e \<Rightarrow> len (entry_header e) = 103
                 \<and> unat (len (entry_header e)) mod unat (LOG_ALIGN small) = 7
    | _ \<Rightarrow> False)"
  by code_simp

text \<open>
  For every call the header length is the structure size plus the (capped) path length;
  no rounding is applied to it.
\<close>

lemma stored_len_is_record_size:
  "len (header (netlog_record L env p act proto fam src_ip sport dst_ip dport))
     = sizeof_netlog_log L + netlog_path_len L p"
  "len (exec_header (execlog_record L env p args argv_size))
     = sizeof_execlog_log L + execlog_path_len L p + execlog_argv_size L argv_size"
  by (simp_all add: netlog_record_def execlog_record_def Let_def)

subsection \<open>A read that fails at the wraparound marker\<close>

text \<open>
  Claim C9 at a concrete history.  A session has read four records and stands at the
  write position.  The fifth record wraps: the marker is written at the cursor, the
  record at offset 0.  A read with an 8-byte buffer fails with \<open>-EINVAL\<close> and copies
  nothing; the cursor is now \<open>(5, 0)\<close>, the place of the record that was not delivered.
  After a sixth record the retry with a large buffer delivers the fifth record
  (\<open>/bin/e\<close>), not the sixth.
\<close>

theorem retry_at_wrap_repeats_record:
  "map_option fst (read_session small plain no_wait 8 five_stored caught_up)
     = Some (Ret (- EINVAL) [])
   \<and> log_curr_seq after_short_read = 5 \<and> log_curr_idx after_short_read = 0
   \<and> map_option fst (read_session small plain no_wait 128 six_stored after_short_read)
     = Some (Ret 38 (''netlog [    0.000000]: pid /bin/e TCP'' @ [LF]))
   \<and> map_option path (case log_buf six_stored 103 of Entry (Netlog r) \<Rightarrow> Some r | _ \<Rightarrow> None)
     = Some (''/bin/f'' @ [NUL])"
  by code_simp

text \<open>
  Away from the marker the cursor does go past the record, whatever the outcome of the
  read: when the cursor is on a record, it is afterwards on the offset behind it.
\<close>

lemma deliver_cursor:
  "deliver L C env count s d e = (out, d2) \<Longrightarrow>
     log_curr_idx d2 = next_record (junk env) s (log_curr_idx d)
     \<and> log_curr_seq d2 = log_curr_seq d + 1"
  by (auto simp: deliver_def Let_def split: prod.splits if_splits)

lemma read_on_record_moves_past_it:
  assumes "log_buf s (unat (log_curr_idx d)) = Entry e" and "len (entry_header e) \<noteq> 0"
    and "deliver L C env count s d e = (out, d2)"
  shows "log_curr_idx d2 = ucast (ucast (log_curr_idx d) + len (entry_header e))"
    and "log_curr_seq d2 = log_curr_seq d + 1"
  using assms deliver_cursor [of L C env count s d e out d2]
  by (simp_all add: next_record_def read_len_def Let_def)


subsection \<open>Wraparound\<close>

lemma unat_u32_bound: "unat (x :: u32) < 4294967296"
  using unsigned_less [of x, where 'a = nat] by simp


lemma unat_ucast_up: "unat (ucast (x :: u32) :: u64) = unat x"
  using unat_u32_bound [of x] by (simp add: unsigned_ucast_eq take_bit_nat_eq_self)

lemma unat_ucast_down: "unat (ucast (x :: u64) :: u32) = unat x mod 4294967296"
  by (simp add: unsigned_ucast_eq take_bit_eq_mod)

lemma unat_drop_bit_u32:
  "unat (drop_bit 4 (x :: u32)) = unat x div 16"
  "unat (drop_bit 5 (x :: u32)) = unat x div 32"
  by (simp_all add: unat_drop_bit_eq drop_bit_eq_div unat_div)

lemma unat_min_u32: "unat (min (a :: u32) b) = min (unat a) (unat b)"
  by (simp add: min_def word_le_nat_alt)

lemma unat_max_u32: "unat (max (a :: u32) b) = max (unat a) (unat b)"
  by (simp add: max_def word_le_nat_alt)

lemma unat_add_small:
  "unat (x :: u64) + unat y < 18446744073709551616 \<Longrightarrow> unat (x + y) = unat x + unat y"
  by (simp add: unat_add_lem [THEN iffD1])

lemma netlog_path_len_bound:
  "unat (netlog_path_len L p) \<le> unat (LOG_BUF_LEN L) div 16"
proof -
  have a: "unat (ucast (min (drop_bit 4 (LOG_BUF_LEN L)) INT_MAX) :: u64)
            \<le> unat (LOG_BUF_LEN L) div 16"
    by (simp add: unat_ucast_up unat_min_u32 unat_drop_bit_u32)
  have b: "\<not> x > (ucast (drop_bit 4 (LOG_BUF_LEN L)) :: u64)
           \<Longrightarrow> unat x \<le> unat (LOG_BUF_LEN L) div 16" for x
    by (simp add: word_less_nat_alt unat_ucast_up unat_drop_bit_u32)
  show ?thesis
    using a b by (auto simp: netlog_path_len_def Let_def)
qed

lemma netlog_record_size:
  assumes "layout_ok L"
  shows "unat (len (header (netlog_record L env p act proto fam sip sport dip dport)))
           = unat (sizeof_netlog_log L) + unat (netlog_path_len L p)"
    and "0 < unat (len (header (netlog_record L env p act proto fam sip sport dip dport)))"
    and "unat (len (header (netlog_record L env p act proto fam sip sport dip dport))) < 2 ^ 29"
proof -
  have pl: "unat (netlog_path_len L p) < 2 ^ 28"
    using netlog_path_len_bound [of L p] unat_u32_bound [of "LOG_BUF_LEN L"] by simp
  have sz: "0 < unat (sizeof_netlog_log L)" "unat (sizeof_netlog_log L) < 65536"
    using assms by (simp_all add: layout_ok_def)
  have eq: "unat (sizeof_netlog_log L + netlog_path_len L p)
           = unat (sizeof_netlog_log L) + unat (netlog_path_len L p)"
    using pl sz by (intro unat_add_small) simp
  show "unat (len (header (netlog_record L env p act proto fam sip sport dip dport)))
           = unat (sizeof_netlog_log L) + unat (netlog_path_len L p)"
    using eq by (simp add: netlog_record_def Let_def)
  then show "0 < unat (len (header (netlog_record L env p act proto fam sip sport dip dport)))"
    and "unat (len (header (netlog_record L env p act proto fam sip sport dip dport))) < 2 ^ 29"
    using pl sz by simp_all
qed

lemma align_up_bounds:
  assumes "layout_ok L" and "unat sz < 2 ^ 32"
  shows "unat sz \<le> unat (align_up L sz)"
    and "unat (align_up L sz) < unat sz + unat (LOG_ALIGN L)"
proof -
  have nz: "LOG_ALIGN L \<noteq> 0" and le: "unat (LOG_ALIGN L) \<le> 4096"
    using assms(1) by (auto simp: layout_ok_def)
  have "unat ((- sz) AND (LOG_ALIGN L - 1)) \<le> unat (LOG_ALIGN L - 1)"
    by (simp add: word_le_nat_alt [symmetric] word_and_le1)
  also have "\<dots> = unat (LOG_ALIGN L) - 1"
    using nz by (simp add: unat_minus_one)
  finally have pad: "unat ((- sz) AND (LOG_ALIGN L - 1)) \<le> unat (LOG_ALIGN L) - 1" .
  have "unat (sz + ((- sz) AND (LOG_ALIGN L - 1)))
          = unat sz + unat ((- sz) AND (LOG_ALIGN L - 1))"
    using pad le assms(2) by (intro unat_add_small) simp
  then show "unat sz \<le> unat (align_up L sz)"
    and "unat (align_up L sz) < unat sz + unat (LOG_ALIGN L)"
    using pad assms(1) by (auto simp: align_up_def layout_ok_def)
qed

lemma evict_until_free_keeps:
  "log_buf (evict_until_free L j sz s) = log_buf s"
  "log_next_idx (evict_until_free L j sz s) = log_next_idx s"
  "log_next_seq (evict_until_free L j sz s) = log_next_seq s"
proof (induction L j sz s rule: evict_until_free.induct)
  case (1 L j sz s)
  {
    case 1
    show ?case
      by (subst evict_until_free.simps) (use "1.IH"(1) in \<open>simp add: Let_def\<close>)
  next
    case 2
    show ?case
      by (subst evict_until_free.simps) (use "1.IH"(2) in \<open>simp add: Let_def\<close>)
  next
    case 3
    show ?case
      by (subst evict_until_free.simps) (use "1.IH"(3) in \<open>simp add: Let_def\<close>)
  }
qed

lemma evict_until_free_first_le:
  "log_first_seq s \<le> log_next_seq s \<Longrightarrow>
     log_first_seq (evict_until_free L j sz s) \<le> log_next_seq s"
proof (induction L j sz s rule: evict_until_free.induct)
  case (1 L j sz s)
  show ?case
  proof (cases "log_first_seq s < log_next_seq s")
    case False
    then show ?thesis
      using "1.prems" by (subst evict_until_free.simps) simp
  next
    case True
    then have step: "log_first_seq s + 1 \<le> log_next_seq s"
      by unat_arith
    let ?free = "(if log_next_idx s > log_first_idx s
                   then ucast (max (LOG_BUF_LEN L - log_next_idx s) (log_first_idx s))
                   else ucast (log_first_idx s - log_next_idx s)) :: size_t"
    show ?thesis
    proof (cases "?free > sz + sizeof_sec_log L")
      case yes: True
      then show ?thesis
        using True "1.prems" by (subst evict_until_free.simps) (simp add: Let_def)
    next
      case no: False
      have "log_first_seq (evict_until_free L j sz
               (s\<lparr>log_first_idx := next_record j s (log_first_idx s),
                  log_first_seq := log_first_seq s + 1\<rparr>)) \<le> log_next_seq s"
        using "1.IH" [OF True refl no] step by simp
      then show ?thesis
        using True no by (subst evict_until_free.simps) (simp add: Let_def)
    qed
  qed
qed

lemma wrap_generic:
  fixes s :: "'d log_state" and e :: "'d log_entry"
  assumes unfit: "ucast (LOG_BUF_LEN L) \<le>
                    ucast (log_next_idx s) + align_up L (len (entry_header e)) + sizeof_sec_log L"
    and pos: "0 < unat (len (entry_header e))"
    and below: "unat (len (entry_header e)) \<le> unat (log_next_idx s)"
    and s1: "s1 = evict_until_free L j (align_up L (len (entry_header e))) s"
    and s': "s' = commit_record e (find_new_record_place L j (len (entry_header e)) s)"
  shows "log_first_seq s' = log_first_seq s1 \<and> log_first_idx s' = log_first_idx s1
    \<and> log_buf s' (unat (log_next_idx s)) = Zeroed
    \<and> log_buf s' 0 = Entry e
    \<and> log_next_idx s' = ucast (len (entry_header e))
    \<and> log_next_seq s' = log_next_seq s + 1
    \<and> next_record j' s' (log_next_idx s) = 0
    \<and> current_record j' s' (log_next_idx s) = Some e"
proof -
  let ?m = "unat (log_next_idx s)"
  have keep: "log_buf s1 = log_buf s" "log_next_idx s1 = log_next_idx s"
    "log_next_seq s1 = log_next_seq s"
    by (simp_all add: s1 evict_until_free_keeps)
  have place: "find_new_record_place L j (len (entry_header e)) s =
      s1\<lparr>log_buf := overwrite (log_buf s) ?m 8 Zeroed, log_next_idx := 0\<rparr>"
    using unfit keep
    by (simp add: find_new_record_place_def Let_def s1 [symmetric])
  have m: "0 < ?m" using pos below by simp
  have marker: "log_buf s' ?m = Zeroed"
    using m below by (simp add: s' place commit_record_def overwrite_def)
  have rec: "log_buf s' 0 = Entry e"
    by (simp add: s' place commit_record_def overwrite_def)
  have "read_len j' (log_buf s') ?m = 0"
    by (simp add: read_len_def marker)
  then have "next_record j' s' (log_next_idx s) = 0"
    and "current_record j' s' (log_next_idx s) = Some e"
    by (simp_all add: next_record_def current_record_def rec)
  then show ?thesis
    using marker rec keep by (simp add: s' place commit_record_def)
qed

text \<open>
  The writer at the end of the arena.  A network record is stored when it does not fit
  between the write offset and the end of the arena (the test of
  \<open>find_new_record_place\<close>) and is not longer than the write offset.  Then the oldest
  retained cursor is the one the eviction loop has left (the wraparound branch evicts
  nothing), the zero length field is written at the old write offset, the record is
  placed at offset 0 and the write offset becomes its length.  A session that had read
  everything finds the new record through the marker, and is left with the cursor at
  offset 0 and the next sequence number.
\<close>

lemma wrap_places_record_at_zero:
  fixes s :: "'d log_state"
  assumes ok: "layout_ok L"
    and r: "r = netlog_record L env p act proto fam src_ip sport dst_ip dport"
    and unfit: "ucast (LOG_BUF_LEN L) \<le>
                  ucast (log_next_idx s) + align_up L (len (header r)) + sizeof_sec_log L"
    and below: "unat (len (header r)) \<le> unat (log_next_idx s)"
    and s1: "s1 = evict_until_free L (junk_len env) (align_up L (len (header r))) s"
    and s': "s' = store_netlog_record L env p act proto fam src_ip sport dst_ip dport s"
  shows "log_first_seq s' = log_first_seq s1 \<and> log_first_idx s' = log_first_idx s1
    \<and> log_buf s' (unat (log_next_idx s)) = Zeroed
    \<and> log_buf s' 0 = Entry (Netlog r)
    \<and> log_next_idx s' = ucast (len (header r))
    \<and> log_next_seq s' = log_next_seq s + 1
    \<and> next_record (junk renv) s' (log_next_idx s) = 0
    \<and> current_record (junk renv) s' (log_next_idx s) = Some (Netlog r)
    \<and> (log_curr_idx d = log_next_idx s \<and> log_curr_seq d = log_next_seq s
         \<and> log_first_seq s \<le> log_next_seq s \<and> lock_err renv = 0 \<longrightarrow>
        read_session L C renv count s' d = Some (deliver L C renv count s' d (Netlog r))
        \<and> log_curr_idx (snd (deliver L C renv count s' d (Netlog r))) = 0
        \<and> log_curr_seq (snd (deliver L C renv count s' d (Netlog r))) = log_next_seq s + 1)"
proof -
  have pos: "0 < unat (len (entry_header (Netlog r)))"
    using netlog_record_size(2) [OF ok] by (simp add: r)
  have s2: "s' = commit_record (Netlog r)
                  (find_new_record_place L (junk_len env) (len (entry_header (Netlog r))) s)"
    by (simp add: s' store_netlog_record_def Let_def r)
  have s3: "s1 = evict_until_free L (junk_len env)
                   (align_up L (len (entry_header (Netlog r)))) s"
    by (simp add: s1)
  note w = wrap_generic [where e = "Netlog r" and j' = "junk renv", OF _ pos _ s3 s2,
      simplified, OF unfit below]
  have rd: "read_session L C renv count s' d = Some (deliver L C renv count s' d (Netlog r))
        \<and> log_curr_idx (snd (deliver L C renv count s' d (Netlog r))) = 0
        \<and> log_curr_seq (snd (deliver L C renv count s' d (Netlog r))) = log_next_seq s + 1"
    if d: "log_curr_idx d = log_next_idx s" "log_curr_seq d = log_next_seq s"
      and inv: "log_first_seq s \<le> log_next_seq s" and lk: "lock_err renv = 0"
  proof -
    have ne: "log_curr_seq d \<noteq> log_next_seq s'"
      using w d(2) by simp
    have "log_first_seq s1 \<le> log_next_seq s"
      unfolding s1 using inv by (rule evict_until_free_first_le)
    then have nl: "\<not> log_curr_seq d < log_first_seq s'"
      using w d(2) by simp
    have eq: "read_session L C renv count s' d = Some (deliver L C renv count s' d (Netlog r))"
      using ne nl lk w d(1) by (simp add: read_session_def)
    have "log_curr_idx (snd (deliver L C renv count s' d (Netlog r)))
            = next_record (junk renv) s' (log_curr_idx d)
          \<and> log_curr_seq (snd (deliver L C renv count s' d (Netlog r))) = log_curr_seq d + 1"
      by (rule deliver_cursor) (rule surjective_pairing)
    then show ?thesis
      using eq w d by simp
  qed
  show ?thesis
    using w rd by blast
qed

lemma layout_ok_small: "layout_ok small"
  by (simp add: layout_ok_def small_def)

text \<open>
  Claim C4 at a concrete history.  A session has read four records and stands at the
  write position \<open>(4, 412)\<close>.  The fifth record does not fit before the end of the 512-byte
  arena: the zero length field is written at offset 412, \<open>/bin/e\<close> is placed at offset 0
  and the write offset becomes 103.  The next read of the session delivers \<open>/bin/e\<close>,
  found through the marker, but leaves the cursor at \<open>(5, 0)\<close>: the marker has taken the
  sequence number of a record, and the cursor stands on the record just delivered.
  After a sixth record, stored at offset 103, the session is delivered \<open>/bin/e\<close> a second
  time and then finds nothing to read (\<open>-EAGAIN\<close>); \<open>/bin/f\<close> is not delivered.
\<close>

theorem reader_counts_marker_as_record:
  "log_buf five_stored 412 = Zeroed
   \<and> map_option path (case log_buf five_stored 0 of Entry (Netlog r) \<Rightarrow> Some r | _ \<Rightarrow> None)
     = Some (''/bin/e'' @ [NUL])
   \<and> log_next_idx five_stored = 103 \<and> log_next_seq five_stored = 5
   \<and> map_option fst (read_session small plain no_wait 128 five_stored caught_up)
     = Some (Ret 38 (''netlog [    0.000000]: pid /bin/e TCP'' @ [LF]))
   \<and> log_curr_seq after_wrap_read = 5 \<and> log_curr_idx after_wrap_read = 0
   \<and> map_option path (case log_buf six_stored 103 of Entry (Netlog r) \<Rightarrow> Some r | _ \<Rightarrow> None)
     = Some (''/bin/f'' @ [NUL])
   \<and> log_next_seq six_stored = 6
   \<and> reads small plain no_wait 128 six_stored after_wrap_read 2
     = Some [Ret 38 (''netlog [    0.000000]: pid /bin/e TCP'' @ [LF]), Ret (- EAGAIN) []]"
proof -
  have "log_buf five_stored 412 = Zeroed"
    by code_simp
  moreover have "map_option path
      (case log_buf five_stored 0 of Entry (Netlog r) \<Rightarrow> Some r | _ \<Rightarrow> None)
     = Some (''/bin/e'' @ [NUL])"
    by code_simp
  moreover have "log_next_idx five_stored = 103" "log_next_seq five_stored = 5"
    by code_simp+
  moreover have "map_option fst (read_session small plain no_wait 128 five_stored caught_up)
     = Some (Ret 38 (''netlog [    0.000000]: pid /bin/e TCP'' @ [LF]))"
    by code_simp
  moreover have "log_curr_seq after_wrap_read = 5" "log_curr_idx after_wrap_read = 0"
    by code_simp+
  moreover have "map_option path
      (case log_buf six_stored 103 of Entry (Netlog r) \<Rightarrow> Some r | _ \<Rightarrow> None)
     = Some (''/bin/f'' @ [NUL])"
    by code_simp
  moreover have "reads small plain no_wait 128 six_stored after_wrap_read 2
     = Some [Ret 38 (''netlog [    0.000000]: pid /bin/e TCP'' @ [LF]), Ret (- EAGAIN) []]"
    by code_simp
  ultimately show ?thesis
    by (simp add: six_stored_cursors)
qed


subsection \<open>Capped paths\<close>

lemma poke_length [simp]: "at + length t \<le> length b \<Longrightarrow> length (poke b at t) = length b"
  by (simp add: poke_def)

lemma take_poke_before: "k \<le> at \<Longrightarrow> at \<le> length b \<Longrightarrow> take k (poke b at t) = take k b"
  by (simp add: poke_def min_def)











text \<open>
  At the boundary: a line of exactly \<open>USER_BUFFER_SIZE\<close> bytes is returned whole; the
  terminator of the last \<open>sprintf\<close> is the one byte written behind the buffer.
\<close>

lemma line_of_buffer_size_is_returned_whole:
  "map_option fst (read_session snug plain no_wait 128 (connect_by long_path 1 boot) fresh64)
     = Some (Ret 64 (''netlog [    0.000000]: pid '' @ take 32 long_path @ '' TCP'' @ [LF]))"
  "map_option (\<lambda>(out, d2). length (buf d2))
     (read_session snug plain no_wait 128 (connect_by long_path 1 boot) fresh64) = Some 65"
  by code_simp+



subsection \<open>Walking an appended buffer\<close>

lemma span_simps [simp]:
  "span [] = 0" "span (e # es) = esize e + span es" "span (es @ fs) = span es + span fs"
  by (simp_all add: span_def)

lemma fits_snoc:
  "fits L off (es @ [e]) =
     (fits L off es
      \<and> off + span es + unat (align_up L (len (entry_header e))) + unat (sizeof_sec_log L)
           < unat (LOG_BUF_LEN L))"
  by (induction es arbitrary: off) (auto simp: add.assoc)

lemma laid_out_snoc:
  "laid_out m off (es @ [e]) = (laid_out m off es \<and> m (off + span es) = Entry e)"
  by (induction es arbitrary: off) (auto simp: add.assoc)

lemma laid_out_overwrite:
  "laid_out m off es \<Longrightarrow> off + span es \<le> at \<Longrightarrow> \<forall>e \<in> set es. 0 < esize e \<Longrightarrow>
     laid_out (overwrite m at n c) off es"
proof (induction es arbitrary: off)
  case Nil
  then show ?case by simp
next
  case (Cons e es)
  have cell: "m off = Entry e" and rest: "laid_out m (off + esize e) es"
    using Cons.prems(1) by simp_all
  have pos: "0 < esize e" using Cons.prems(3) by simp
  have le: "off + esize e \<le> at" using Cons.prems(2) by simp
  have "overwrite m at n c off = Entry e"
    using cell pos le by (simp add: overwrite_def esize_def)
  moreover have "laid_out (overwrite m at n c) (off + esize e) es"
    using rest Cons.prems(2,3) by (intro Cons.IH) (simp_all add: add.assoc)
  ultimately show ?case by simp
qed

lemma evict_nothing_when_tail_free:
  assumes "log_first_seq s < log_next_seq s \<longrightarrow>
             log_first_idx s < log_next_idx s
             \<and> sz + sizeof_sec_log L < ucast (LOG_BUF_LEN L - log_next_idx s)"
  shows "evict_until_free L j sz s = s"
proof (cases "log_first_seq s < log_next_seq s")
  case False
  then show ?thesis by (subst evict_until_free.simps) simp
next
  case True
  with assms have lt: "log_first_idx s < log_next_idx s"
    and fr: "sz + sizeof_sec_log L < ucast (LOG_BUF_LEN L - log_next_idx s)" by simp_all
  have "unat (ucast (LOG_BUF_LEN L - log_next_idx s) :: u64)
          \<le> unat (ucast (max (LOG_BUF_LEN L - log_next_idx s) (log_first_idx s)) :: u64)"
    by (simp add: unat_ucast_up unat_max_u32)
  then have "sz + sizeof_sec_log L
          < (ucast (max (LOG_BUF_LEN L - log_next_idx s) (log_first_idx s)) :: u64)"
    using fr by (simp add: word_less_nat_alt)
  then show ?thesis
    using True lt by (subst evict_until_free.simps) (simp add: Let_def)
qed

lemma packed_step:
  fixes s :: "'d log_state"
  assumes ok: "layout_ok L" and p: "packed s es"
    and pos: "0 < esize e"
    and al: "esize e \<le> unat (align_up L (len (entry_header e)))"
    and room: "span es + unat (align_up L (len (entry_header e))) + unat (sizeof_sec_log L)
                 < unat (LOG_BUF_LEN L)"
  shows "packed (commit_record e (find_new_record_place L j (len (entry_header e)) s))
                (es @ [e])"
proof -
  let ?sz = "align_up L (len (entry_header e))"
  let ?hdr = "sizeof_sec_log L"
  let ?B = "unat (LOG_BUF_LEN L)"
  have B: "?B < 4294967296" by (rule unat_u32_bound)
  have ni: "unat (log_next_idx s) = span es" and fi: "log_first_idx s = 0"
    and fs: "log_first_seq s = 0" and ns: "unat (log_next_seq s) = length es"
    and lo: "laid_out (log_buf s) 0 es" and ps: "\<forall>e \<in> set es. 0 < esize e"
    using p by (simp_all add: packed_def)
  have sum: "unat (?sz + ?hdr) = unat ?sz + unat ?hdr"
    using room B by (intro unat_add_small) simp
  have le: "log_next_idx s \<le> LOG_BUF_LEN L"
    using room ni by (simp add: word_le_nat_alt)
  have tail: "unat (LOG_BUF_LEN L - log_next_idx s) = ?B - span es"
    using le ni by (simp add: unat_sub)
  have free: "?sz + ?hdr < ucast (LOG_BUF_LEN L - log_next_idx s)"
    using room by (simp add: word_less_nat_alt sum unat_ucast_up tail)
  have nonempty: "log_first_idx s < log_next_idx s" if "log_first_seq s < log_next_seq s"
  proof -
    from that have "0 < length es" using fs ns by (simp add: word_less_nat_alt)
    then obtain x xs where "es = x # xs" by (cases es) auto
    then have "0 < span es" using ps by simp
    then show ?thesis using fi ni by (simp add: word_less_nat_alt)
  qed
  have ev: "evict_until_free L j ?sz s = s"
    using free nonempty by (intro evict_nothing_when_tail_free) simp
  have sum3: "unat (ucast (log_next_idx s) + ?sz + ?hdr :: u64) = span es + unat ?sz + unat ?hdr"
  proof -
    have "unat (ucast (log_next_idx s) + ?sz :: u64) = span es + unat ?sz"
      using room B ni by (subst unat_add_small) (simp_all add: unat_ucast_up)
    then show ?thesis
      using room B by (subst unat_add_small) simp_all
  qed
  have nowrap: "\<not> (ucast (LOG_BUF_LEN L) :: u64) \<le> ucast (log_next_idx s) + ?sz + ?hdr"
    using room by (simp add: word_le_nat_alt sum3 unat_ucast_up)
  have place: "find_new_record_place L j (len (entry_header e)) s = s"
    using nowrap by (simp add: find_new_record_place_def Let_def ev)
  let ?s' = "commit_record e s"
  have small: "span es + esize e < 4294967296"
    using room al B by simp
  have ni': "unat (log_next_idx ?s') = span (es @ [e])"
  proof -
    have "unat (ucast (len (entry_header e)) :: u32) = esize e"
      using small by (simp add: unat_ucast_down esize_def)
    then have "unat (log_next_idx s + ucast (len (entry_header e))) = span es + esize e"
      using small ni by (simp add: unat_word_ariths)
    then show ?thesis by (simp add: commit_record_def)
  qed
  have ns': "unat (log_next_seq ?s') = length (es @ [e])"
  proof -
    have "length es \<le> span es"
      using ps by (induction es) (auto simp: Suc_le_eq add_pos_nonneg intro: add_mono)
    then have "unat (log_next_seq s) + unat (1 :: u64) < 18446744073709551616"
      using ns small by simp
    then have "unat (log_next_seq s + 1) = unat (log_next_seq s) + 1"
      by (subst unat_add_small) simp_all
    then show ?thesis using ns by (simp add: commit_record_def)
  qed
  have lo': "laid_out (log_buf ?s') 0 (es @ [e])"
  proof -
    have "laid_out (overwrite (log_buf s) (span es) (esize e) (Entry e)) 0 es"
      using lo ps by (intro laid_out_overwrite) simp_all
    moreover have "overwrite (log_buf s) (span es) (esize e) (Entry e) (0 + span es) = Entry e"
      by (simp add: overwrite_def)
    ultimately show ?thesis
      by (simp add: laid_out_snoc commit_record_def ni esize_def)
  qed
  have "packed ?s' (es @ [e])"
    using ni' ns' lo' ps pos fi fs
    by (simp add: packed_def) (simp add: commit_record_def)
  then show ?thesis by (simp add: place)
qed

lemma execlog_path_len_bound:
  "unat (execlog_path_len L p) \<le> unat (LOG_BUF_LEN L) div 32"
proof -
  have a: "unat (ucast (min (drop_bit 5 (LOG_BUF_LEN L)) INT_MAX) :: u64)
            \<le> unat (LOG_BUF_LEN L) div 32"
    by (simp add: unat_ucast_up unat_min_u32 unat_drop_bit_u32)
  have b: "\<not> x > (ucast (drop_bit 5 (LOG_BUF_LEN L)) :: u64)
           \<Longrightarrow> unat x \<le> unat (LOG_BUF_LEN L) div 32" for x
    by (simp add: word_less_nat_alt unat_ucast_up unat_drop_bit_u32)
  show ?thesis
    using a b by (auto simp: execlog_path_len_def Let_def)
qed

lemma execlog_argv_size_bound:
  "unat (execlog_argv_size L n) \<le> unat (LOG_BUF_LEN L) div 32"
proof -
  have a: "unat (ucast (min (drop_bit 5 (LOG_BUF_LEN L)) INT_MAX) :: u64)
            \<le> unat (LOG_BUF_LEN L) div 32"
    by (simp add: unat_ucast_up unat_min_u32 unat_drop_bit_u32)
  have b: "\<not> x > (ucast (drop_bit 5 (LOG_BUF_LEN L)) :: u64)
           \<Longrightarrow> unat x \<le> unat (LOG_BUF_LEN L) div 32" for x
    by (simp add: word_less_nat_alt unat_ucast_up unat_drop_bit_u32)
  show ?thesis
    using a b by (auto simp: execlog_argv_size_def)
qed

lemma execlog_record_size:
  assumes "layout_ok L"
  shows "0 < unat (len (exec_header (execlog_record L env p args n)))"
    and "unat (len (exec_header (execlog_record L env p args n))) < 2 ^ 29"
proof -
  have pl: "unat (execlog_path_len L p) < 2 ^ 27"
    using execlog_path_len_bound [of L p] unat_u32_bound [of "LOG_BUF_LEN L"] by simp
  have al: "unat (execlog_argv_size L n) < 2 ^ 27"
    using execlog_argv_size_bound [of L n] unat_u32_bound [of "LOG_BUF_LEN L"] by simp
  have sz: "0 < unat (sizeof_execlog_log L)" "unat (sizeof_execlog_log L) < 65536"
    using assms by (simp_all add: layout_ok_def)
  have e1: "unat (sizeof_execlog_log L + execlog_path_len L p)
           = unat (sizeof_execlog_log L) + unat (execlog_path_len L p)"
    using pl sz by (intro unat_add_small) simp
  have e2: "unat (sizeof_execlog_log L + execlog_path_len L p + execlog_argv_size L n)
           = unat (sizeof_execlog_log L) + unat (execlog_path_len L p)
               + unat (execlog_argv_size L n)"
    using pl al sz e1 by (subst unat_add_small) simp_all
  have "unat (len (exec_header (execlog_record L env p args n)))
           = unat (sizeof_execlog_log L) + unat (execlog_path_len L p)
               + unat (execlog_argv_size L n)"
    using e2 by (simp add: execlog_record_def Let_def)
  then show "0 < unat (len (exec_header (execlog_record L env p args n)))"
    and "unat (len (exec_header (execlog_record L env p args n))) < 2 ^ 29"
    using pl al sz by simp_all
qed

lemma append_entry_size:
  assumes "layout_ok L"
  shows "0 < esize (append_entry L c)"
    and "esize (append_entry L c) \<le> unat (align_up L (len (entry_header (append_entry L c))))"
proof -
  have b: "0 < esize (append_entry L c) \<and> esize (append_entry L c) < 2 ^ 29"
  proof (cases c)
    case (Store_net env p act proto fam sip sp dip dp)
    then show ?thesis
      using netlog_record_size(2,3) [OF assms, of env p act proto fam sip sp dip dp]
      by (simp add: esize_def)
  next
    case (Store_exec env p args n)
    then show ?thesis
      using execlog_record_size [OF assms, of env p args n] by (simp add: esize_def)
  qed
  then show "0 < esize (append_entry L c)" by simp
  have "unat (len (entry_header (append_entry L c))) < 2 ^ 32"
    using b by (simp add: esize_def)
  from align_up_bounds(1) [OF assms this]
  show "esize (append_entry L c) \<le> unat (align_up L (len (entry_header (append_entry L c))))"
    by (simp add: esize_def)
qed

lemma do_append_commit:
  "\<exists>j. do_append L s c =
         commit_record (append_entry L c)
           (find_new_record_place L j (len (entry_header (append_entry L c))) s)"
  by (cases c) (auto simp: store_netlog_record_def store_execlog_record_def Let_def)

lemma packed_appends:
  fixes cs :: "'d append list"
  assumes ok: "layout_ok L"
  shows "fits L 0 (map (append_entry L) cs) \<Longrightarrow>
           packed (appends L cs log_init) (map (append_entry L) cs)"
proof (induction cs rule: rev_induct)
  case Nil
  show ?case by (simp add: appends_def packed_def log_init_def)
next
  case (snoc c cs)
  let ?e = "append_entry L c"
  let ?s = "appends L cs log_init"
  have f: "fits L 0 (map (append_entry L) cs)"
    and room: "span (map (append_entry L) cs) + unat (align_up L (len (entry_header ?e)))
                 + unat (sizeof_sec_log L) < unat (LOG_BUF_LEN L)"
    using snoc.prems by (simp_all add: fits_snoc)
  have p: "packed ?s (map (append_entry L) cs)"
    using f by (rule snoc.IH)
  obtain j where j: "do_append L ?s c =
      commit_record ?e (find_new_record_place L j (len (entry_header ?e)) ?s)"
    using do_append_commit [of L ?s c] by blast
  have "packed (do_append L ?s c) (map (append_entry L) cs @ [?e])"
    unfolding j using ok p append_entry_size [OF ok, of c] room by (intro packed_step)
  then show ?case by (simp add: appends_def)
qed

lemma unat_of_nat_u32: "n < 4294967296 \<Longrightarrow> unat (of_nat n :: u32) = n"
  by (simp add: unat_of_nat)

lemma next_record_entry:
  assumes cell: "log_buf s off = Entry e" and pos: "0 < esize e"
    and small: "off + esize e < 4294967296"
  shows "next_record j s (of_nat off) = of_nat (off + esize e)"
proof -
  have o: "unat (of_nat off :: u32) = off"
    using small by (simp add: unat_of_nat_u32)
  have nz: "len (entry_header e) \<noteq> 0"
    using pos by (auto simp: esize_def)
  have l: "read_len j (log_buf s) off = len (entry_header e)"
    by (simp add: read_len_def cell)
  have "unat (ucast (of_nat off :: u32) + len (entry_header e) :: u64) = off + esize e"
  proof -
    have "unat (ucast (of_nat off :: u32) :: u64) + unat (len (entry_header e))
            < 18446744073709551616"
      using small by (simp add: unat_ucast_up o esize_def)
    then show ?thesis
      by (subst unat_add_small) (simp_all add: unat_ucast_up o esize_def)
  qed
  then have "unat (ucast (ucast (of_nat off :: u32) + len (entry_header e) :: u64) :: u32)
               = off + esize e"
    using small by (simp add: unat_ucast_down)
  then have "unat (ucast (ucast (of_nat off :: u32) + len (entry_header e) :: u64) :: u32)
               = unat (of_nat (off + esize e) :: u32)"
    by (simp only: unat_of_nat_u32 [OF small])
  then have "(ucast (ucast (of_nat off :: u32) + len (entry_header e) :: u64) :: u32)
               = of_nat (off + esize e)"
    by (simp only: word_unat_eq_iff)
  then show ?thesis
    using nz by (simp add: next_record_def Let_def o l)
qed

lemma walk_laid_out:
  "laid_out (log_buf s) off es \<Longrightarrow> \<forall>e \<in> set es. 0 < esize e \<Longrightarrow>
     off + span es < 4294967296 \<Longrightarrow>
     walk j s (length es) (of_nat off) = Some es"
proof (induction es arbitrary: off)
  case Nil
  show ?case by simp
next
  case (Cons e es)
  have cell: "log_buf s off = Entry e" and rest: "laid_out (log_buf s) (off + esize e) es"
    using Cons.prems(1) by simp_all
  have pos: "0 < esize e" using Cons.prems(2) by simp
  have small: "off + esize e < 4294967296" using Cons.prems(3) by simp
  have o: "unat (of_nat off :: u32) = off"
    using small by (simp add: unat_of_nat_u32)
  have nx: "next_record j s (of_nat off) = of_nat (off + esize e)"
    using cell pos small by (rule next_record_entry)
  have "walk j s (length es) (of_nat (off + esize e)) = Some es"
    using rest Cons.prems(2,3) by (intro Cons.IH) (simp_all add: add.assoc)
  then show ?case
    by (simp add: o cell nx)
qed

text \<open>
  Claim C3 as stated fails: the five records of \<open>tight_appends\<close> take 479 of the 512
  bytes of the arena, yet the fifth store finds \<open>376 + 104 + 32\<close> not below 512, evicts
  the two oldest records and wraps.  The oldest retained sequence number is 2 and the
  walk of five steps from the oldest retained cursor does not give the five records.
\<close>

theorem tight_appends_evict_counterexample:
  "span (map (append_entry small) tight_appends) = 479
   \<and> unat (LOG_BUF_LEN small) = 512
   \<and> log_first_seq (appends small tight_appends log_init) = 2
   \<and> log_first_idx (appends small tight_appends log_init) = 206
   \<and> walk (junk no_wait) (appends small tight_appends log_init) 5
         (log_first_idx (appends small tight_appends log_init))
       \<noteq> Some (map (append_entry small) tight_appends)"
proof -
  have "span (map (append_entry small) tight_appends) = 479"
    by code_simp
  moreover have "unat (LOG_BUF_LEN small) = 512"
    by (simp add: small_def)
  moreover have "log_first_seq (appends small tight_appends log_init) = 2"
    "log_first_idx (appends small tight_appends log_init) = 206"
    by code_simp+
  moreover have "walk (junk no_wait) (appends small tight_appends log_init) 5
         (log_first_idx (appends small tight_appends log_init)) = None"
    by code_simp
  ultimately show ?thesis
    by simp
qed

text \<open>
  Claim C3, amended.  Any sequence of \<open>store_netlog_record\<close> and \<open>store_execlog_record\<close>
  calls on the initial buffer in which every record, at its turn, has its size rounded
  up to \<open>LOG_ALIGN\<close> plus one \<open>struct sec_log\<close> strictly before the end of the arena
  (\<open>fits\<close>: no call reaches the wraparound test, and none evicts): walking from
  \<open>log_first_idx\<close> with \<open>next_record\<close>, as many steps as there were calls, yields the
  records the calls built, in the order of the calls and with every field as built; the
  oldest retained sequence number is still 0 and the next one is the number of calls.
\<close>

theorem walk_reproduces_appended_records:
  fixes cs :: "'d append list"
  assumes "layout_ok L" and "fits L 0 (map (append_entry L) cs)"
  shows "walk j (appends L cs log_init) (length cs) (log_first_idx (appends L cs log_init))
           = Some (map (append_entry L) cs)
         \<and> log_first_seq (appends L cs log_init) = 0
         \<and> unat (log_next_seq (appends L cs log_init)) = length cs"
proof -
  let ?s = "appends L cs log_init :: 'd log_state"
  let ?es = "map (append_entry L) cs"
  have p: "packed ?s ?es"
    using assms by (rule packed_appends)
  have tot: "0 + span ?es < 4294967296"
    using p unat_u32_bound [of "log_next_idx ?s"] by (simp add: packed_def)
  have "walk j ?s (length ?es) (of_nat 0) = Some ?es"
    using p tot by (intro walk_laid_out) (simp_all add: packed_def)
  then show ?thesis
    using p by (simp add: packed_def)
qed

lemma mixed_appends_fit: "fits small 0 (map (append_entry small) mixed_appends)"
  by code_simp

theorem walk_reproduces_appended_records_witness:
  "layout_ok small
   \<and> fits small 0 (map (append_entry small) mixed_appends)
   \<and> walk (\<lambda>_. 0) (appends small mixed_appends log_init) (length mixed_appends)
        (log_first_idx (appends small mixed_appends log_init))
       = Some (map (append_entry small) mixed_appends)
   \<and> log_first_seq (appends small mixed_appends log_init) = 0
   \<and> unat (log_next_seq (appends small mixed_appends log_init)) = length mixed_appends"
  using walk_reproduces_appended_records [OF layout_ok_small mixed_appends_fit, of "\<lambda>_. 0"]
    layout_ok_small mixed_appends_fit
  by blast

end
